theory Spec2Isabelle
  imports Main "HOL-Library.Word"
begin

unbundle bit_operations_syntax

section \<open>Data model\<close>

text \<open>
  A byte is an 8-bit word, \<open>uint32\<close> and \<open>uint64\<close> are 32- and 64-bit words, and
  \<open>int64\<close> is a 64-bit word read in two's complement (\<open>sint\<close>).  The shift counter of
  the decoders has Go type \<open>uint\<close>; it starts at 0, grows by 7 per byte and never
  passes 70 before the loop returns, so it is a \<open>nat\<close> here.
\<close>

type_synonym byte = "8 word"
type_synonym uint32 = "32 word"
type_synonym uint64 = "64 word"
type_synonym int64 = "64 word"

text \<open>
  Go error values.  \<open>EOF\<close> is \<open>io.EOF\<close>, \<open>ErrOverflow\<close> and \<open>ErrNonMinimal\<close> are the two
  package variables, \<open>Other e\<close> is any other error value a reader may hand back.
\<close>

datatype 'e error = EOF | ErrOverflow | ErrNonMinimal | Other 'e

text \<open>
  An \<open>io.Reader\<close> is an object with hidden state; \<open>r.Read(buf)\<close> on the one-byte buffer
  \<open>buf\<close> returns \<open>(n, err)\<close> and may store a byte in \<open>buf[0]\<close>.  The decoders discard
  \<open>n\<close>, so one call is modelled by what it stored in \<open>buf[0]\<close> (if anything), the
  error it returned (\<open>None\<close> is \<open>nil\<close>) and the reader's next state.
\<close>

type_synonym 'e outcome = "byte option \<times> 'e error option"
type_synonym ('s, 'e) reader = "'s \<Rightarrow> 'e outcome \<times> 's"

text \<open>
  The reader over an in-memory byte sequence (Go's \<open>bytes.Reader\<close>): it hands out the
  bytes one per call with a \<open>nil\<close> error and answers \<open>(0, io.EOF)\<close> once they are
  used up.  Its state is the list of bytes not yet read.
\<close>

fun bytes_reader :: "(byte list, 'e) reader" where
  "bytes_reader [] = ((None, Some EOF), [])"
| "bytes_reader (b # bs) = ((Some b, None), bs)"

text \<open>
  A reader that replays a fixed script of outcomes, one per call, and answers
  \<open>(0, io.EOF)\<close> after the script.  It stands for any source that can also fail.
\<close>

fun script_reader :: "('e outcome list, 'e) reader" where
  "script_reader [] = ((None, Some EOF), [])"
| "script_reader (x # xs) = (x, xs)"

text \<open>
  Two observations on a reader \<open>r\<close> started in state \<open>s\<close>, used to state what a decoder
  has met before a given read: \<open>reads_after r s n\<close> is the reader's state after \<open>n\<close>
  calls, and \<open>continues r s n\<close> says that each of the first \<open>n\<close> calls returned a \<open>nil\<close>
  error and stored a byte whose continuation flag is set.
\<close>

fun reads_after :: "('s, 'e) reader \<Rightarrow> 's \<Rightarrow> nat \<Rightarrow> 's" where
  "reads_after r s 0 = s"
| "reads_after r s (Suc n) = reads_after r (snd (r s)) n"

fun continues :: "('s, 'e) reader \<Rightarrow> 's \<Rightarrow> nat \<Rightarrow> bool" where
  "continues r s 0 = True"
| "continues r s (Suc n) =
    (case fst (r s) of
      (Some c, None) \<Rightarrow> c AND 0x80 \<noteq> 0 \<and> continues r (snd (r s)) n
    | _ \<Rightarrow> False)"

section \<open>Decoders\<close>

text \<open>
  Each decoder is the body of its \<open>for\<close> loop as a recursive function of the loop
  variables: the reader state, \<open>res\<close>, \<open>shift\<close> and the content of \<open>buf[0]\<close>
  (and \<open>prev\<close> for the signed decoder).  A Go return \<open>(0, err)\<close> is \<open>Inl err\<close>, a return
  \<open>(res, nil)\<close> is \<open>Inr res\<close>; the reader state after the last read is returned with it.
\<close>

function DecodeU32_loop ::
  "('s, 'e) reader \<Rightarrow> 's \<Rightarrow> uint32 \<Rightarrow> nat \<Rightarrow> byte \<Rightarrow> ('e error + uint32) \<times> 's" where
  "DecodeU32_loop r s res shift buf =
    (case r s of ((stored, err), s') \<Rightarrow>
      (let buf' = (case stored of None \<Rightarrow> buf | Some x \<Rightarrow> x) in
        if err = Some EOF then (Inl ErrNonMinimal, s')
        else if err \<noteq> None then (Inl (the err), s')
        else
          (let b = buf';
               res' = res OR push_bit shift (ucast (b AND 0x7F));
               shift' = shift + 7
           in
             if b AND 0x80 = 0 then
               (if shift' > 32 \<and> b > 0b1111 then (Inl ErrOverflow, s')
                else if shift' > 7 \<and> b = 0 then (Inl ErrNonMinimal, s')
                else (Inr res', s'))
             else if shift' > 32 then (Inl ErrOverflow, s')
             else DecodeU32_loop r s' res' shift' buf')))"
  by pat_completeness auto
termination
  by (relation "measure (\<lambda>(r, s, res, shift, buf). 33 - shift)") auto

definition DecodeU32 :: "('s, 'e) reader \<Rightarrow> 's \<Rightarrow> ('e error + uint32) \<times> 's" where
  "DecodeU32 r s = DecodeU32_loop r s 0 0 0"

function DecodeU64_loop ::
  "('s, 'e) reader \<Rightarrow> 's \<Rightarrow> uint64 \<Rightarrow> nat \<Rightarrow> byte \<Rightarrow> ('e error + uint64) \<times> 's" where
  "DecodeU64_loop r s res shift buf =
    (case r s of ((stored, err), s') \<Rightarrow>
      (let buf' = (case stored of None \<Rightarrow> buf | Some x \<Rightarrow> x) in
        if err = Some EOF then (Inl ErrNonMinimal, s')
        else if err \<noteq> None then (Inl (the err), s')
        else
          (let b = buf';
               res' = res OR push_bit shift (ucast (b AND 0x7F));
               shift' = shift + 7
           in
             if b AND 0x80 = 0 then
               (if shift' > 64 \<and> b > 1 then (Inl ErrOverflow, s')
                else if shift' > 7 \<and> b = 0 then (Inl ErrNonMinimal, s')
                else (Inr res', s'))
             else if shift' > 64 then (Inl ErrOverflow, s')
             else DecodeU64_loop r s' res' shift' buf')))"
  by pat_completeness auto
termination
  by (relation "measure (\<lambda>(r, s, res, shift, buf). 65 - shift)") auto

definition DecodeU64 :: "('s, 'e) reader \<Rightarrow> 's \<Rightarrow> ('e error + uint64) \<times> 's" where
  "DecodeU64 r s = DecodeU64_loop r s 0 0 0"

text \<open>
  In \<open>DecodeS64\<close> the constant \<open>-1\<close> of \<open>res |= -1 << shift\<close> has type \<open>int64\<close>, so the
  shifted value is \<open>push_bit shift (- 1)\<close> on 64-bit words.
\<close>

function DecodeS64_loop ::
  "('s, 'e) reader \<Rightarrow> 's \<Rightarrow> int64 \<Rightarrow> nat \<Rightarrow> byte \<Rightarrow> byte \<Rightarrow> ('e error + int64) \<times> 's" where
  "DecodeS64_loop r s res shift prev buf =
    (case r s of ((stored, err), s') \<Rightarrow>
      (let buf' = (case stored of None \<Rightarrow> buf | Some x \<Rightarrow> x) in
        if err = Some EOF then (Inl ErrNonMinimal, s')
        else if err \<noteq> None then (Inl (the err), s')
        else
          (let b = buf';
               res' = res OR push_bit shift (ucast (b AND 0x7F));
               shift' = shift + 7
           in
             if b AND 0x80 = 0 then
               (if shift' > 64 \<and> b \<noteq> 0 \<and> b \<noteq> 0x7f then (Inl ErrOverflow, s')
                else if shift' > 7 \<and>
                    ((b = 0 \<and> prev AND 0x40 = 0) \<or> (b = 0x7f \<and> prev AND 0x40 > 0))
                  then (Inl ErrNonMinimal, s')
                else if shift' < 64 \<and> b AND 0x40 > 0
                  then (Inr (res' OR push_bit shift' (- 1)), s')
                else (Inr res', s'))
             else if shift' > 64 then (Inl ErrOverflow, s')
             else DecodeS64_loop r s' res' shift' b buf')))"
  by pat_completeness auto
termination
  by (relation "measure (\<lambda>(r, s, res, shift, prev, buf). 65 - shift)") auto

definition DecodeS64 :: "('s, 'e) reader \<Rightarrow> 's \<Rightarrow> ('e error + int64) \<times> 's" where
  "DecodeS64 r s = DecodeS64_loop r s 0 0 0 0"

section \<open>Encoders\<close>

text \<open>
  Each encoder is its \<open>for !done\<close> loop as a recursive function of \<open>num\<close> and \<open>buf\<close>:
  an iteration that sets \<open>done\<close> appends its byte and returns the buffer, any other
  iteration appends its byte with the continuation flag and goes round again.
  \<open>>>\<close> is the logical shift \<open>drop_bit\<close> on the unsigned types and the arithmetic
  shift \<open>signed_drop_bit\<close> on \<open>int64\<close>; \<open>byte(...)\<close> is the truncating \<open>ucast\<close>.
  The capacity passed to \<open>make\<close> only sizes the first allocation (\<open>append\<close> grows the
  slice), so it has no counterpart here.
\<close>

function EncodeU32_loop :: "uint32 \<Rightarrow> byte list \<Rightarrow> byte list" where
  "EncodeU32_loop num buf =
    (let b = (ucast (num AND 0x7F) :: byte);
         num' = drop_bit 7 num
     in if num' = 0 then buf @ [b]
        else EncodeU32_loop num' (buf @ [b OR 0x80]))"
  by pat_completeness auto
termination
proof (relation "measure (\<lambda>(num, buf). unat num)")
  show "wf (measure (\<lambda>(num :: uint32, buf :: byte list). unat num))"
    by simp
next
  fix num :: uint32 and buf :: "byte list" and b :: byte and num' :: uint32
  assume num': "num' = drop_bit 7 num" and "num' \<noteq> 0"
  have "unat (drop_bit 7 num) = drop_bit 7 (unat num)"
    by (rule unat_drop_bit_eq)
  also have "\<dots> = unat num div 2 ^ 7"
    by (rule drop_bit_eq_div)
  finally have e: "unat num' = unat num div 2 ^ 7"
    by (simp only: num')
  from \<open>num' \<noteq> 0\<close> have "unat num' \<noteq> 0"
    by (simp only: unat_eq_0 not_False_eq_True)
  with e have "unat num div 2 ^ 7 < unat num"
    by simp
  with e have "unat num' < unat num"
    by simp
  then show "((num', buf @ [b OR 0x80]), num, buf) \<in> measure (\<lambda>(num, buf). unat num)"
    by simp
qed

definition EncodeU32 :: "uint32 \<Rightarrow> byte list" where
  "EncodeU32 num = EncodeU32_loop num []"

function EncodeU64_loop :: "uint64 \<Rightarrow> byte list \<Rightarrow> byte list" where
  "EncodeU64_loop num buf =
    (let b = (ucast (num AND 0x7F) :: byte);
         num' = drop_bit 7 num
     in if num' = 0 then buf @ [b]
        else EncodeU64_loop num' (buf @ [b OR 0x80]))"
  by pat_completeness auto
termination
proof (relation "measure (\<lambda>(num, buf). unat num)")
  show "wf (measure (\<lambda>(num :: uint64, buf :: byte list). unat num))"
    by simp
next
  fix num :: uint64 and buf :: "byte list" and b :: byte and num' :: uint64
  assume num': "num' = drop_bit 7 num" and "num' \<noteq> 0"
  have "unat (drop_bit 7 num) = drop_bit 7 (unat num)"
    by (rule unat_drop_bit_eq)
  also have "\<dots> = unat num div 2 ^ 7"
    by (rule drop_bit_eq_div)
  finally have e: "unat num' = unat num div 2 ^ 7"
    by (simp only: num')
  from \<open>num' \<noteq> 0\<close> have "unat num' \<noteq> 0"
    by (simp only: unat_eq_0 not_False_eq_True)
  with e have "unat num div 2 ^ 7 < unat num"
    by simp
  with e have "unat num' < unat num"
    by simp
  then show "((num', buf @ [b OR 0x80]), num, buf) \<in> measure (\<lambda>(num, buf). unat num)"
    by simp
qed

definition EncodeU64 :: "uint64 \<Rightarrow> byte list" where
  "EncodeU64 num = EncodeU64_loop num []"

function EncodeS64_loop :: "int64 \<Rightarrow> byte list \<Rightarrow> byte list" where
  "EncodeS64_loop num buf =
    (let b = (ucast (num AND 0x7F) :: byte);
         num' = signed_drop_bit 7 num;
         signBit = b AND 0x40
     in if (num' = 0 \<and> signBit = 0) \<or> (num' = - 1 \<and> signBit \<noteq> 0) then buf @ [b]
        else EncodeS64_loop num' (buf @ [b OR 0x80]))"
  by pat_completeness auto
termination
proof (relation "measure (\<lambda>(num, buf). nat \<bar>sint num\<bar>)")
  show "wf (measure (\<lambda>(num :: int64, buf :: byte list). nat \<bar>sint num\<bar>))"
    by simp
next
  fix num :: int64 and buf :: "byte list" and b :: byte and num' :: int64 and signBit :: byte
  assume b: "b = ucast (num AND 0x7F)" and num': "num' = signed_drop_bit 7 num"
    and signBit: "signBit = b AND 0x40"
    and nd: "\<not> ((num' = 0 \<and> signBit = 0) \<or> (num' = - 1 \<and> signBit \<noteq> 0))"
  have "num \<noteq> 0"
    using nd by (auto simp: b num' signBit)
  then have n0: "sint num \<noteq> 0"
    by (simp only: signed_eq_0_iff not_False_eq_True)
  have "num \<noteq> - 1"
    using nd by (auto simp: b num' signBit)
  have n1: "sint num \<noteq> - 1"
  proof
    assume "sint num = - 1"
    then have "(word_of_int (sint num) :: int64) = word_of_int (- 1)"
      by (rule arg_cong)
    with \<open>num \<noteq> - 1\<close> show False
      by simp
  qed
  have "sint num' = drop_bit 7 (sint num)"
    by (simp only: num' sint_signed_drop_bit_eq)
  also have "\<dots> = sint num div 2 ^ 7" 
    by (rule drop_bit_eq_div)
  finally have e: "sint num' = sint num div 128"
    by simp
  have "\<bar>sint num div 128\<bar> < \<bar>sint num\<bar>"
    using n0 n1 by linarith
  with e have "\<bar>sint num'\<bar> < \<bar>sint num\<bar>"
    by simp
  then show "((num', buf @ [b OR 0x80]), num, buf) \<in> measure (\<lambda>(num, buf). nat \<bar>sint num\<bar>)"
    by simp
qed

definition EncodeS64 :: "int64 \<Rightarrow> byte list" where
  "EncodeS64 num = EncodeS64_loop num []"

declare DecodeU32_loop.simps [simp del]
declare DecodeU64_loop.simps [simp del]
declare DecodeS64_loop.simps [simp del]
declare EncodeU32_loop.simps [simp del]
declare EncodeU64_loop.simps [simp del]
declare EncodeS64_loop.simps [simp del]

section \<open>Bytes and bits\<close>

lemma byte_flag: "(b :: byte) AND 0x80 = 0 \<longleftrightarrow> \<not> bit b 7"
  using and_exp_eq_0_iff_not_bit [of b 7] by simp

lemma byte_payload: "(b :: 'a::len word) AND 0x7F = take_bit 7 b"
  using take_bit_eq_mask [of 7 b] by (simp add: mask_eq_exp_minus_1)

lemma byte_sign: "(b :: byte) AND 0x40 = 0 \<longleftrightarrow> \<not> bit b 6"
  using and_exp_eq_0_iff_not_bit [of b 6] by simp

lemma byte_sign_pos: "(b :: byte) AND 0x40 > 0 \<longleftrightarrow> bit b 6"
  using byte_sign [of b] by (simp add: word_greater_zero_iff)

section \<open>Round trip of the unsigned codecs\<close>

text \<open>
  The decoder reading the encoder's output keeps, after \<open>k\<close> bytes, the low \<open>7 * k\<close> bits
  of the value in \<open>res\<close> while the encoder is left with the value shifted right by
  \<open>7 * k\<close>.
\<close>

lemma DecodeU32_loop_Nil:
  "DecodeU32_loop bytes_reader [] res shift buf = (Inl ErrNonMinimal, [])"
  by (simp add: DecodeU32_loop.simps)

lemma DecodeU32_loop_Cons:
  "DecodeU32_loop bytes_reader (b # bs) res shift buf =
    (if \<not> bit b 7 then
       (if 32 < shift + 7 \<and> 15 < b then (Inl ErrOverflow, bs)
        else if 0 < shift \<and> b = 0 then (Inl ErrNonMinimal, bs)
        else (Inr (res OR push_bit shift (ucast (take_bit 7 b))), bs))
     else if 32 < shift + 7 then (Inl ErrOverflow, bs)
     else DecodeU32_loop bytes_reader bs (res OR push_bit shift (ucast (take_bit 7 b))) (shift + 7) b)"
  by (subst DecodeU32_loop.simps) (simp add: byte_flag byte_payload Let_def)

lemma EncodeU32_loop_append_all:
  fixes acc :: "byte list"
  shows "\<forall>buf. EncodeU32_loop num buf = buf @ EncodeU32_loop num []"
proof (induction num acc rule: EncodeU32_loop.induct)
  case (1 num acc)
  define b :: byte where "b = ucast (num AND 0x7F)"
  show ?case
  proof (cases "drop_bit 7 num = 0")
    case True
    then show ?thesis
      by (simp add: EncodeU32_loop.simps [of num] Let_def)
  next
    case False
    from "1.IH" [OF refl refl False]
    have IH: "EncodeU32_loop (drop_bit 7 num) buf = buf @ EncodeU32_loop (drop_bit 7 num) []" for buf
      by blast
    have step: "EncodeU32_loop num buf = EncodeU32_loop (drop_bit 7 num) (buf @ [b OR 0x80])" for buf
      using False by (simp add: EncodeU32_loop.simps [of num] Let_def b_def)
    show ?thesis
    proof
      fix buf
      have "EncodeU32_loop num buf = (buf @ [b OR 0x80]) @ EncodeU32_loop (drop_bit 7 num) []"
        by (simp only: step IH [of "buf @ [b OR 0x80]"])
      moreover have "EncodeU32_loop num [] = ([] @ [b OR 0x80]) @ EncodeU32_loop (drop_bit 7 num) []"
        by (simp only: step IH [of "[] @ [b OR 0x80]"])
      ultimately show "EncodeU32_loop num buf = buf @ EncodeU32_loop num []"
        by simp
    qed
  qed
qed

lemma EncodeU32_loop_unfold:
  "EncodeU32_loop num [] =
    (if drop_bit 7 num = 0 then [ucast (take_bit 7 num)]
     else (ucast (take_bit 7 num) OR 0x80) # EncodeU32_loop (drop_bit 7 num) [])"
proof -
  have "EncodeU32_loop (drop_bit 7 num) [b] = [b] @ EncodeU32_loop (drop_bit 7 num) []" for b
    using EncodeU32_loop_append_all [of "drop_bit 7 num"] by blast
  then show ?thesis
    by (simp add: EncodeU32_loop.simps [of num "[]"] Let_def byte_payload)
qed


lemma bit_0x80: "bit (0x80 :: byte) n \<longleftrightarrow> n = 7"
proof -
  have "(0x80 :: byte) = 2 ^ 7" by simp
  then show ?thesis by (simp only: bit_exp_iff) auto
qed

lemma payload_flagged:
  "take_bit 7 ((ucast (take_bit 7 (num :: 'a::len word)) :: byte) OR 0x80) = ucast (take_bit 7 num)"
  by (rule bit_word_eqI) (auto simp add: bit_simps bit_0x80)

lemma payload_plain:
  "take_bit 7 (ucast (take_bit 7 (num :: 'a::len word)) :: byte) = ucast (take_bit 7 num)"
  by (rule bit_word_eqI) (auto simp add: bit_simps)

lemma payload_back:
  "(ucast (ucast (take_bit 7 (num :: 'a::len word)) :: byte) :: 'a word) = take_bit 7 num"
  by (rule bit_word_eqI) (auto simp add: bit_simps)

lemma flag_set: "bit ((b :: byte) OR 0x80) 7"
  by (simp add: bit_simps bit_0x80)

lemma flag_clear: "\<not> bit (ucast (take_bit 7 (num :: 'a::len word)) :: byte) 7"
  by (simp add: bit_simps)

lemma accumulate:
  "take_bit shift v OR push_bit shift (take_bit 7 (drop_bit shift v)) = take_bit (shift + 7) (v :: 'a::len word)"
  by (rule bit_word_eqI) (auto simp add: bit_simps)

lemma take_bit_all:
  "drop_bit n v = 0 \<Longrightarrow> take_bit n v = (v :: 'a::len word)"
  by (simp only: take_bit_eq_self_iff_drop_bit_eq_0)


lemma drop_bit_nonzero_less:
  "drop_bit n (v :: 'a::len word) \<noteq> 0 \<Longrightarrow> n < LENGTH('a)"
  by (rule ccontr) (simp add: drop_bit_word_beyond)

lemma payload_zero_iff:
  "(ucast (take_bit 7 (num :: 'a::len word)) :: byte) = 0 \<longleftrightarrow> take_bit 7 num = 0"
  by (metis payload_back ucast_0)

lemma byte_le_15: "(b :: byte) \<le> 15 \<longleftrightarrow> take_bit 4 b = b"
proof -
  have "b \<le> 15 \<longleftrightarrow> b < 2 ^ 4"
    by (simp add: word_le_nat_alt word_less_nat_alt) arith
  also have "\<dots> \<longleftrightarrow> take_bit 4 b = b"
    using mask_eq_iff_w2p [of 4 b] by (simp add: take_bit_eq_mask word_size)
  finally show ?thesis .
qed

lemma byte_le_1: "(b :: byte) \<le> 1 \<longleftrightarrow> take_bit 1 b = b"
proof -
  have "b \<le> 1 \<longleftrightarrow> b < 2 ^ 1"
    by (simp add: word_le_nat_alt word_less_nat_alt) arith
  also have "\<dots> \<longleftrightarrow> take_bit 1 b = b"
    using mask_eq_iff_w2p [of 1 b] by (simp add: take_bit_eq_mask word_size)
  finally show ?thesis .
qed

lemma U32_top_nibble:
  "(ucast (take_bit 7 (drop_bit 28 (v :: uint32))) :: byte) \<le> 15"
  unfolding byte_le_15
  by (rule bit_word_eqI) (auto simp add: bit_simps dest: bit_imp_le_length)

lemma DecodeU32_loop_last:
  assumes "\<not> bit b 7" and "\<not> (32 < shift + 7 \<and> 15 < b)" and "\<not> (0 < shift \<and> b = 0)"
  shows "DecodeU32_loop bytes_reader (b # bs) res shift buf =
           (Inr (res OR push_bit shift (ucast (take_bit 7 b))), bs)"
  using assms by (subst DecodeU32_loop_Cons) auto

lemma DecodeU32_loop_more:
  assumes "bit b 7" and "shift + 7 \<le> 32"
  shows "DecodeU32_loop bytes_reader (b # bs) res shift buf =
           DecodeU32_loop bytes_reader bs (res OR push_bit shift (ucast (take_bit 7 b))) (shift + 7) b"
  using assms by (subst DecodeU32_loop_Cons) auto

lemma DecodeU32_loop_EncodeU32_loop:
  assumes "k \<le> 4" and "0 < k \<longrightarrow> drop_bit (7 * k) v \<noteq> 0"
  shows "DecodeU32_loop (bytes_reader :: (byte list, 'e) reader)
           (EncodeU32_loop (drop_bit (7 * k) v) [] @ rest)
           (take_bit (7 * k) v) (7 * k) buf = (Inr v, rest)"
  using assms
proof (induction "4 - k" arbitrary: k buf rule: less_induct)
  case less
  let ?dec = "DecodeU32_loop (bytes_reader :: (byte list, 'e) reader)"
  define sh where "sh = 7 * k"
  define num where "num = drop_bit sh v"
  define b :: byte where "b = ucast (take_bit 7 num)"
  have sh': "sh + 7 = 7 * (k + 1)"
    by (simp add: sh_def)
  have num': "drop_bit 7 num = drop_bit (sh + 7) v"
    by (simp add: num_def add.commute)
  have acc: "take_bit sh v OR push_bit sh (ucast b) = take_bit (sh + 7) v"
    by (simp only: b_def num_def payload_back accumulate)
  show ?case
  proof (cases "drop_bit 7 num = 0")
    case True
    then have all: "take_bit (sh + 7) v = v"
      by (simp only: num' take_bit_all)
    have enc: "EncodeU32_loop num [] = [b]"
      using True by (simp add: EncodeU32_loop_unfold [of num] b_def)
    have ovf: "\<not> (32 < sh + 7 \<and> 15 < b)"
    proof
      assume "32 < sh + 7 \<and> 15 < b"
      with less.prems have "k = 4" and "15 < b" by (simp_all add: sh_def)
      then show False
        using U32_top_nibble [of v] by (simp add: b_def num_def sh_def)
    qed
    have nz: "\<not> (0 < sh \<and> b = 0)"
    proof
      assume "0 < sh \<and> b = 0"
      with less.prems have "num \<noteq> 0" and "b = 0" by (simp_all add: num_def sh_def)
      moreover from True have "take_bit 7 num = num" by (rule take_bit_all)
      ultimately have "take_bit 7 num \<noteq> 0" and "b = 0" by simp_all
      then show False by (simp only: b_def payload_zero_iff)
    qed
    have flag: "\<not> bit b 7"
      unfolding b_def by (rule flag_clear)
    have pl: "take_bit 7 b = b"
      unfolding b_def by (rule payload_plain)
    have "?dec (EncodeU32_loop num [] @ rest) (take_bit sh v) sh buf =
            ?dec (b # rest) (take_bit sh v) sh buf"
      by (simp only: enc append_Cons append_Nil)
    also have "\<dots> = (Inr (take_bit sh v OR push_bit sh (ucast (take_bit 7 b))), rest)"
      using flag ovf nz by (rule DecodeU32_loop_last)
    also have "\<dots> = (Inr v, rest)"
      by (simp only: pl acc all)
    finally show ?thesis
      by (simp only: num_def sh_def)
  next
    case False
    then have nz': "drop_bit (7 * (k + 1)) v \<noteq> 0"
      by (simp only: num' sh' not_False_eq_True)
    then have "7 * (k + 1) < 32"
      using drop_bit_nonzero_less [of "7 * (k + 1)" v] by simp
    then have k: "k + 1 \<le> 4" and le: "sh + 7 \<le> 32"
      by (simp_all add: sh_def)
    have "EncodeU32_loop num [] = (b OR 0x80) # EncodeU32_loop (drop_bit 7 num) []"
      using False by (simp add: EncodeU32_loop_unfold [of num] b_def)
    then have enc: "EncodeU32_loop num [] = (b OR 0x80) # EncodeU32_loop (drop_bit (7 * (k + 1)) v) []"
      by (simp only: num' sh')
    have flag: "bit (b OR 0x80) 7"
      by (rule flag_set)
    have pl: "take_bit 7 (b OR 0x80) = b"
      unfolding b_def by (rule payload_flagged)
    have "?dec (EncodeU32_loop num [] @ rest) (take_bit sh v) sh buf =
            ?dec ((b OR 0x80) # (EncodeU32_loop (drop_bit (7 * (k + 1)) v) [] @ rest)) (take_bit sh v) sh buf"
      by (simp only: enc append_Cons)
    also have "\<dots> = ?dec (EncodeU32_loop (drop_bit (7 * (k + 1)) v) [] @ rest)
            (take_bit sh v OR push_bit sh (ucast (take_bit 7 (b OR 0x80)))) (sh + 7) (b OR 0x80)"
      using flag le by (rule DecodeU32_loop_more)
    also have "\<dots> = ?dec (EncodeU32_loop (drop_bit (7 * (k + 1)) v) [] @ rest)
            (take_bit (7 * (k + 1)) v) (7 * (k + 1)) (b OR 0x80)"
      by (simp only: pl acc sh')
    also have "\<dots> = (Inr v, rest)"
    proof (rule less.hyps)
      show "4 - (k + 1) < 4 - k" using k by arith
      show "k + 1 \<le> 4" by (rule k)
      show "0 < k + 1 \<longrightarrow> drop_bit (7 * (k + 1)) v \<noteq> 0" using nz' by simp
    qed
    finally show ?thesis
      by (simp only: num_def sh_def)
  qed
qed

text \<open>
  Claim C4.  For every \<open>uint32\<close> value \<open>v\<close>, \<open>DecodeU32\<close> reading from a source that
  supplies exactly the bytes \<open>EncodeU32 v\<close> succeeds and returns \<open>v\<close>; it has then read
  all of them.
\<close>

theorem DecodeU32_EncodeU32: "DecodeU32 bytes_reader (EncodeU32 v) = (Inr v, [])"
  using DecodeU32_loop_EncodeU32_loop [of 0 v "[]" 0]
  by (simp add: DecodeU32_def EncodeU32_def)

lemma DecodeU64_loop_Nil:
  "DecodeU64_loop bytes_reader [] res shift buf = (Inl ErrNonMinimal, [])"
  by (simp add: DecodeU64_loop.simps)

lemma DecodeU64_loop_Cons:
  "DecodeU64_loop bytes_reader (b # bs) res shift buf =
    (if \<not> bit b 7 then
       (if 64 < shift + 7 \<and> 1 < b then (Inl ErrOverflow, bs)
        else if 0 < shift \<and> b = 0 then (Inl ErrNonMinimal, bs)
        else (Inr (res OR push_bit shift (ucast (take_bit 7 b))), bs))
     else if 64 < shift + 7 then (Inl ErrOverflow, bs)
     else DecodeU64_loop bytes_reader bs (res OR push_bit shift (ucast (take_bit 7 b))) (shift + 7) b)"
  by (subst DecodeU64_loop.simps) (simp add: byte_flag byte_payload Let_def)

lemma EncodeU64_loop_append_all:
  fixes acc :: "byte list"
  shows "\<forall>buf. EncodeU64_loop num buf = buf @ EncodeU64_loop num []"
proof (induction num acc rule: EncodeU64_loop.induct)
  case (1 num acc)
  define b :: byte where "b = ucast (num AND 0x7F)"
  show ?case
  proof (cases "drop_bit 7 num = 0")
    case True
    then show ?thesis
      by (simp add: EncodeU64_loop.simps [of num] Let_def)
  next
    case False
    from "1.IH" [OF refl refl False]
    have IH: "EncodeU64_loop (drop_bit 7 num) buf = buf @ EncodeU64_loop (drop_bit 7 num) []" for buf
      by blast
    have step: "EncodeU64_loop num buf = EncodeU64_loop (drop_bit 7 num) (buf @ [b OR 0x80])" for buf
      using False by (simp add: EncodeU64_loop.simps [of num] Let_def b_def)
    show ?thesis
    proof
      fix buf
      have "EncodeU64_loop num buf = (buf @ [b OR 0x80]) @ EncodeU64_loop (drop_bit 7 num) []"
        by (simp only: step IH [of "buf @ [b OR 0x80]"])
      moreover have "EncodeU64_loop num [] = ([] @ [b OR 0x80]) @ EncodeU64_loop (drop_bit 7 num) []"
        by (simp only: step IH [of "[] @ [b OR 0x80]"])
      ultimately show "EncodeU64_loop num buf = buf @ EncodeU64_loop num []"
        by simp
    qed
  qed
qed

lemma EncodeU64_loop_unfold:
  "EncodeU64_loop num [] =
    (if drop_bit 7 num = 0 then [ucast (take_bit 7 num)]
     else (ucast (take_bit 7 num) OR 0x80) # EncodeU64_loop (drop_bit 7 num) [])"
proof -
  have "EncodeU64_loop (drop_bit 7 num) [b] = [b] @ EncodeU64_loop (drop_bit 7 num) []" for b
    using EncodeU64_loop_append_all [of "drop_bit 7 num"] by blast
  then show ?thesis
    by (simp add: EncodeU64_loop.simps [of num "[]"] Let_def byte_payload)
qed


lemma U64_top_bit:
  "(ucast (take_bit 7 (drop_bit 63 (v :: uint64))) :: byte) \<le> 1"
proof -
  have "drop_bit 1 (ucast (take_bit 7 (drop_bit 63 v)) :: byte) = 0"
    by (rule bit_word_eqI) (auto simp add: bit_simps dest: bit_imp_le_length)
  then show ?thesis
    by (simp only: byte_le_1 take_bit_eq_self_iff_drop_bit_eq_0)
qed

lemma DecodeU64_loop_last:
  assumes "\<not> bit b 7" and "\<not> (64 < shift + 7 \<and> 1 < b)" and "\<not> (0 < shift \<and> b = 0)"
  shows "DecodeU64_loop bytes_reader (b # bs) res shift buf =
           (Inr (res OR push_bit shift (ucast (take_bit 7 b))), bs)"
  using assms by (subst DecodeU64_loop_Cons) auto

lemma DecodeU64_loop_more:
  assumes "bit b 7" and "shift + 7 \<le> 64"
  shows "DecodeU64_loop bytes_reader (b # bs) res shift buf =
           DecodeU64_loop bytes_reader bs (res OR push_bit shift (ucast (take_bit 7 b))) (shift + 7) b"
  using assms by (subst DecodeU64_loop_Cons) auto

lemma DecodeU64_loop_EncodeU64_loop:
  assumes "k \<le> 9" and "0 < k \<longrightarrow> drop_bit (7 * k) v \<noteq> 0"
  shows "DecodeU64_loop (bytes_reader :: (byte list, 'e) reader)
           (EncodeU64_loop (drop_bit (7 * k) v) [] @ rest)
           (take_bit (7 * k) v) (7 * k) buf = (Inr v, rest)"
  using assms
proof (induction "9 - k" arbitrary: k buf rule: less_induct)
  case less
  let ?dec = "DecodeU64_loop (bytes_reader :: (byte list, 'e) reader)"
  define sh where "sh = 7 * k"
  define num where "num = drop_bit sh v"
  define b :: byte where "b = ucast (take_bit 7 num)"
  have sh': "sh + 7 = 7 * (k + 1)"
    by (simp add: sh_def)
  have num': "drop_bit 7 num = drop_bit (sh + 7) v"
    by (simp add: num_def add.commute)
  have acc: "take_bit sh v OR push_bit sh (ucast b) = take_bit (sh + 7) v"
    by (simp only: b_def num_def payload_back accumulate)
  show ?case
  proof (cases "drop_bit 7 num = 0")
    case True
    then have all: "take_bit (sh + 7) v = v"
      by (simp only: num' take_bit_all)
    have enc: "EncodeU64_loop num [] = [b]"
      using True by (simp add: EncodeU64_loop_unfold [of num] b_def)
    have ovf: "\<not> (64 < sh + 7 \<and> 1 < b)"
    proof
      assume "64 < sh + 7 \<and> 1 < b"
      with less.prems have "k = 9" and "1 < b" by (simp_all add: sh_def)
      then show False
        using U64_top_bit [of v] by (simp add: b_def num_def sh_def)
    qed
    have nz: "\<not> (0 < sh \<and> b = 0)"
    proof
      assume "0 < sh \<and> b = 0"
      with less.prems have "num \<noteq> 0" and "b = 0" by (simp_all add: num_def sh_def)
      moreover from True have "take_bit 7 num = num" by (rule take_bit_all)
      ultimately have "take_bit 7 num \<noteq> 0" and "b = 0" by simp_all
      then show False by (simp only: b_def payload_zero_iff)
    qed
    have flag: "\<not> bit b 7"
      unfolding b_def by (rule flag_clear)
    have pl: "take_bit 7 b = b"
      unfolding b_def by (rule payload_plain)
    have "?dec (EncodeU64_loop num [] @ rest) (take_bit sh v) sh buf =
            ?dec (b # rest) (take_bit sh v) sh buf"
      by (simp only: enc append_Cons append_Nil)
    also have "\<dots> = (Inr (take_bit sh v OR push_bit sh (ucast (take_bit 7 b))), rest)"
      using flag ovf nz by (rule DecodeU64_loop_last)
    also have "\<dots> = (Inr v, rest)"
      by (simp only: pl acc all)
    finally show ?thesis
      by (simp only: num_def sh_def)
  next
    case False
    then have nz': "drop_bit (7 * (k + 1)) v \<noteq> 0"
      by (simp only: num' sh' not_False_eq_True)
    then have "7 * (k + 1) < 64"
      using drop_bit_nonzero_less [of "7 * (k + 1)" v] by simp
    then have k: "k + 1 \<le> 9" and le: "sh + 7 \<le> 64"
      by (simp_all add: sh_def)
    have "EncodeU64_loop num [] = (b OR 0x80) # EncodeU64_loop (drop_bit 7 num) []"
      using False by (simp add: EncodeU64_loop_unfold [of num] b_def)
    then have enc: "EncodeU64_loop num [] = (b OR 0x80) # EncodeU64_loop (drop_bit (7 * (k + 1)) v) []"
      by (simp only: num' sh')
    have flag: "bit (b OR 0x80) 7"
      by (rule flag_set)
    have pl: "take_bit 7 (b OR 0x80) = b"
      unfolding b_def by (rule payload_flagged)
    have "?dec (EncodeU64_loop num [] @ rest) (take_bit sh v) sh buf =
            ?dec ((b OR 0x80) # (EncodeU64_loop (drop_bit (7 * (k + 1)) v) [] @ rest)) (take_bit sh v) sh buf"
      by (simp only: enc append_Cons)
    also have "\<dots> = ?dec (EncodeU64_loop (drop_bit (7 * (k + 1)) v) [] @ rest)
            (take_bit sh v OR push_bit sh (ucast (take_bit 7 (b OR 0x80)))) (sh + 7) (b OR 0x80)"
      using flag le by (rule DecodeU64_loop_more)
    also have "\<dots> = ?dec (EncodeU64_loop (drop_bit (7 * (k + 1)) v) [] @ rest)
            (take_bit (7 * (k + 1)) v) (7 * (k + 1)) (b OR 0x80)"
      by (simp only: pl acc sh')
    also have "\<dots> = (Inr v, rest)"
    proof (rule less.hyps)
      show "9 - (k + 1) < 9 - k" using k by arith
      show "k + 1 \<le> 9" by (rule k)
      show "0 < k + 1 \<longrightarrow> drop_bit (7 * (k + 1)) v \<noteq> 0" using nz' by simp
    qed
    finally show ?thesis
      by (simp only: num_def sh_def)
  qed
qed


lemma EncodeU64_loop_prefix:
  "drop_bit (7 * n) num \<noteq> 0 \<Longrightarrow>
    \<exists>pre. length pre = n \<and> EncodeU64_loop num [] = pre @ EncodeU64_loop (drop_bit (7 * n) num) []"
proof (induction n)
  case 0
  then show ?case by simp
next
  case (Suc n)
  have d: "drop_bit 7 (drop_bit (7 * n) num) = drop_bit (7 * Suc n) num"
    by (simp add: add.commute)
  have "drop_bit (7 * n) num \<noteq> 0"
  proof
    assume "drop_bit (7 * n) num = 0"
    then have "drop_bit 7 (drop_bit (7 * n) num) = 0"
      by simp
    with Suc.prems show False
      by (simp only: d)
  qed
  with Suc.IH obtain pre where pre: "length pre = n"
    "EncodeU64_loop num [] = pre @ EncodeU64_loop (drop_bit (7 * n) num) []"
    by blast
  from Suc.prems d have "EncodeU64_loop (drop_bit (7 * n) num) [] =
      [ucast (take_bit 7 (drop_bit (7 * n) num)) OR 0x80] @ EncodeU64_loop (drop_bit (7 * Suc n) num) []"
    by (subst EncodeU64_loop_unfold) simp
  with pre have "length (pre @ [ucast (take_bit 7 (drop_bit (7 * n) num)) OR 0x80]) = Suc n \<and>
      EncodeU64_loop num [] = (pre @ [ucast (take_bit 7 (drop_bit (7 * n) num)) OR 0x80]) @ EncodeU64_loop (drop_bit (7 * Suc n) num) []"
    by simp
  then show ?case by blast
qed

lemma U64_high: 
  assumes "2 ^ 63 \<le> (v :: uint64)" shows "drop_bit 63 v = 1"
proof -
  from assms have "2 ^ 63 \<le> unat v"
    by (simp add: word_le_nat_alt)
  moreover have "unat v < 2 ^ 64"
    using unsigned_less [of v] by simp
  ultimately have "unat v div 2 ^ 63 = 1"
    by simp
  moreover have "unat (drop_bit 63 v) = drop_bit 63 (unat v)"
    by (rule unat_drop_bit_eq)
  moreover have "drop_bit 63 (unat v) = unat v div 2 ^ 63"
    by (rule drop_bit_eq_div)
  ultimately have "unat (drop_bit 63 v) = unat (1 :: uint64)"
    by simp
  then show ?thesis
    by (rule word_unat_eq_iff [THEN iffD2])
qed

lemma EncodeU64_high:
  assumes "2 ^ 63 \<le> v"
  shows "length (EncodeU64 v) = 10 \<and> last (EncodeU64 v) = 1"
proof -
  from assms have h: "drop_bit 63 v = 1" by (rule U64_high)
  then have "drop_bit (7 * 9) v \<noteq> 0" by simp
  then obtain pre where "length pre = 9" 
    "EncodeU64_loop v [] = pre @ EncodeU64_loop (drop_bit (7 * 9) v) []"
    using EncodeU64_loop_prefix [of 9 v] by blast
  moreover have "EncodeU64_loop 1 [] = [1]"
    by (subst EncodeU64_loop_unfold) simp
  ultimately show ?thesis
    using h by (simp add: EncodeU64_def)
qed

text \<open>
  Claim C3.  For every \<open>uint64\<close> value \<open>v\<close>, \<open>DecodeU64\<close> reading from a source that
  supplies exactly the bytes \<open>EncodeU64 v\<close> succeeds and returns \<open>v\<close>.  Values from
  \<open>2 ^ 63\<close> up are included: their encodings have ten bytes, the last one being 1.
\<close>

theorem DecodeU64_EncodeU64:
  "DecodeU64 bytes_reader (EncodeU64 v) = (Inr v, []) \<and>
   (2 ^ 63 \<le> v \<longrightarrow> length (EncodeU64 v) = 10 \<and> last (EncodeU64 v) = 1)"
  using DecodeU64_loop_EncodeU64_loop [of 0 v "[]" 0] EncodeU64_high [of v]
  by (simp add: DecodeU64_def EncodeU64_def)

theorem DecodeU64_EncodeU64_witness:
  "DecodeU64 (bytes_reader :: (byte list, unit) reader) (EncodeU64 (2 ^ 63)) = (Inr (2 ^ 63), []) \<and>
   (2 ^ 63 :: uint64) \<le> 2 ^ 63 \<and>
   length (EncodeU64 (2 ^ 63)) = 10 \<and> last (EncodeU64 (2 ^ 63)) = 1"
  using DecodeU64_EncodeU64 [of "2 ^ 63"] by simp

section \<open>Length of the encodings\<close>

lemma EncodeS64_loop_append_all:
  fixes acc :: "byte list"
  shows "\<forall>buf. EncodeS64_loop num buf = buf @ EncodeS64_loop num []"
proof (induction num acc rule: EncodeS64_loop.induct)
  case (1 num acc)
  define b :: byte where "b = ucast (num AND 0x7F)"
  define num' where "num' = signed_drop_bit 7 num"
  show ?case
  proof (cases "(num' = 0 \<and> b AND 0x40 = 0) \<or> (num' = - 1 \<and> b AND 0x40 \<noteq> 0)")
    case True
    then show ?thesis
      by (simp add: EncodeS64_loop.simps [of num] Let_def b_def num'_def)
  next
    case False
    from "1.IH" [OF b_def num'_def refl False]
    have IH: "EncodeS64_loop num' buf = buf @ EncodeS64_loop num' []" for buf
      by blast
    have step: "EncodeS64_loop num buf = EncodeS64_loop num' (buf @ [b OR 0x80])" for buf
      by (subst EncodeS64_loop.simps)
        (simp only: Let_def b_def [symmetric] num'_def [symmetric] False if_False)
    show ?thesis
    proof
      fix buf
      have "EncodeS64_loop num buf = (buf @ [b OR 0x80]) @ EncodeS64_loop num' []"
        by (simp only: step IH [of "buf @ [b OR 0x80]"])
      moreover have "EncodeS64_loop num [] = ([] @ [b OR 0x80]) @ EncodeS64_loop num' []"
        by (simp only: step IH [of "[] @ [b OR 0x80]"])
      ultimately show "EncodeS64_loop num buf = buf @ EncodeS64_loop num []"
        by simp
    qed
  qed
qed

lemma sign_of_payload:
  "bit (ucast (take_bit 7 (num :: 'a::len word)) :: byte) 6 \<longleftrightarrow> bit num 6"
  by (auto simp add: bit_simps dest: bit_imp_le_length)

lemma EncodeS64_loop_unfold:
  "EncodeS64_loop num [] =
    (if (signed_drop_bit 7 num = 0 \<and> \<not> bit num 6) \<or> (signed_drop_bit 7 num = - 1 \<and> bit num 6)
     then [ucast (take_bit 7 num)]
     else (ucast (take_bit 7 num) OR 0x80) # EncodeS64_loop (signed_drop_bit 7 num) [])"
proof -
  have "EncodeS64_loop (signed_drop_bit 7 num) [b] = [b] @ EncodeS64_loop (signed_drop_bit 7 num) []" for b
    using EncodeS64_loop_append_all [of "signed_drop_bit 7 num"] by blast
  then show ?thesis
    by (simp add: EncodeS64_loop.simps [of num "[]"] Let_def byte_payload byte_sign sign_of_payload)
qed

lemma EncodeU32_loop_length:
  "drop_bit (7 * Suc n) num = 0 \<Longrightarrow> length (EncodeU32_loop num []) \<le> Suc n"
proof (induction n arbitrary: num)
  case 0
  then show ?case
    by (subst EncodeU32_loop_unfold) simp
next
  case (Suc n)
  have "drop_bit (7 * Suc n) (drop_bit 7 num) = drop_bit (7 * Suc (Suc n)) num"
    by simp
  with Suc.prems have "length (EncodeU32_loop (drop_bit 7 num) []) \<le> Suc n"
    by (intro Suc.IH) simp
  then show ?case
    by (subst EncodeU32_loop_unfold) simp
qed

lemma EncodeU64_loop_length:
  "drop_bit (7 * Suc n) num = 0 \<Longrightarrow> length (EncodeU64_loop num []) \<le> Suc n"
proof (induction n arbitrary: num)
  case 0
  then show ?case
    by (subst EncodeU64_loop_unfold) simp
next
  case (Suc n)
  have "drop_bit (7 * Suc n) (drop_bit 7 num) = drop_bit (7 * Suc (Suc n)) num"
    by simp
  with Suc.prems have "length (EncodeU64_loop (drop_bit 7 num) []) \<le> Suc n"
    by (intro Suc.IH) simp
  then show ?case
    by (subst EncodeU64_loop_unfold) simp
qed

lemma EncodeS64_loop_length:
  "signed_drop_bit (7 * n) num = 0 \<or> signed_drop_bit (7 * n) num = - 1 \<Longrightarrow>
    length (EncodeS64_loop num []) \<le> Suc n"
proof (induction n arbitrary: num)
  case 0
  then have "EncodeS64_loop num [] = [ucast (take_bit 7 num)]"
    by (subst EncodeS64_loop_unfold) auto
  then show ?case
    by simp
next
  case (Suc n)
  have "signed_drop_bit (7 * n) (signed_drop_bit 7 num) = signed_drop_bit (7 * Suc n) num"
    by (simp add: add.commute)
  with Suc.prems have "length (EncodeS64_loop (signed_drop_bit 7 num) []) \<le> Suc n"
    by (intro Suc.IH) simp
  then show ?case
    by (subst EncodeS64_loop_unfold) simp
qed

lemma signed_drop_bit_63:
  "signed_drop_bit 63 (v :: int64) = (if bit v 63 then - 1 else 0)"
  by (rule bit_word_eqI) (auto simp add: bit_simps not_le)

text \<open>
  Claim C10.  Every encoder returns a non-empty byte sequence of bounded length, whatever
  its input: \<open>EncodeU32\<close> between 1 and 5 bytes, \<open>EncodeU64\<close> and \<open>EncodeS64\<close> between
  1 and 10 bytes.  The capacities 4 and 8 given to \<open>make\<close> do not bound the result
  (\<open>append\<close> grows the slice): the largest \<open>uint32\<close> takes 5 bytes, the largest
  \<open>uint64\<close> and the smallest \<open>int64\<close> take 10.
\<close>

theorem Encode_length:
  "1 \<le> length (EncodeU32 u) \<and> length (EncodeU32 u) \<le> 5 \<and>
   1 \<le> length (EncodeU64 v) \<and> length (EncodeU64 v) \<le> 10 \<and>
   1 \<le> length (EncodeS64 w) \<and> length (EncodeS64 w) \<le> 10 \<and>
   length (EncodeU32 0xFFFFFFFF) = 5 \<and>
   length (EncodeU64 0xFFFFFFFFFFFFFFFF) = 10 \<and>
   length (EncodeS64 0x8000000000000000) = 10"
proof -
  have "EncodeU32_loop u [] \<noteq> []" "EncodeU64_loop v [] \<noteq> []" "EncodeS64_loop w [] \<noteq> []"
    by (subst EncodeU32_loop_unfold, simp, subst EncodeU64_loop_unfold, simp,
        subst EncodeS64_loop_unfold, simp)
  moreover have "length (EncodeU32_loop u []) \<le> Suc 4"
    by (rule EncodeU32_loop_length) simp
  moreover have "length (EncodeU64_loop v []) \<le> Suc 9"
    by (rule EncodeU64_loop_length) simp
  moreover have "length (EncodeS64_loop w []) \<le> Suc 9"
    by (rule EncodeS64_loop_length) (simp add: signed_drop_bit_63)
  moreover have "length (EncodeU32 0xFFFFFFFF) = 5"
    by (simp add: EncodeU32_def EncodeU32_loop_unfold)
  moreover have "length (EncodeU64 0xFFFFFFFFFFFFFFFF) = 10"
    by (simp add: EncodeU64_def EncodeU64_loop_unfold)
  moreover have "length (EncodeS64 0x8000000000000000) = 10"
    by (simp add: EncodeS64_def EncodeS64_loop_unfold)
  ultimately show ?thesis
    by (simp add: EncodeU32_def EncodeU64_def EncodeS64_def Suc_le_eq)
qed

section \<open>Reading through continuation bytes\<close>

lemma continues_SucD:
  assumes "continues r s (Suc n)"
  obtains c where "r s = ((Some c, None), snd (r s))" and "bit c 7" and "continues r (snd (r s)) n"
  using assms by (cases "r s") (auto simp add: byte_flag split: option.splits)

lemma DecodeU32_loop_eof:
  "r s = ((stored, Some EOF), s') \<Longrightarrow> DecodeU32_loop r s res shift buf = (Inl ErrNonMinimal, s')"
  by (subst DecodeU32_loop.simps) simp

lemma DecodeU32_loop_err:
  "r s = ((stored, Some e), s') \<Longrightarrow> e \<noteq> EOF \<Longrightarrow> DecodeU32_loop r s res shift buf = (Inl e, s')"
  by (subst DecodeU32_loop.simps) simp

lemma DecodeU32_loop_byte:
  "r s = ((Some b, None), s') \<Longrightarrow> DecodeU32_loop r s res shift buf =
    (if \<not> bit b 7 then
       (if 32 < shift + 7 \<and> 15 < b then (Inl ErrOverflow, s')
        else if 0 < shift \<and> b = 0 then (Inl ErrNonMinimal, s')
        else (Inr (res OR push_bit shift (ucast (take_bit 7 b))), s'))
     else if 32 < shift + 7 then (Inl ErrOverflow, s')
     else DecodeU32_loop r s' (res OR push_bit shift (ucast (take_bit 7 b))) (shift + 7) b)"
  by (subst DecodeU32_loop.simps) (simp add: byte_flag byte_payload Let_def)

lemma DecodeU32_loop_continues:
  assumes "continues r s k" and "shift + 7 * k \<le> 32"
  shows "\<exists>res' buf'. DecodeU32_loop r s res shift buf =
           DecodeU32_loop r (reads_after r s k) res' (shift + 7 * k) buf'"
  using assms
proof (induction k arbitrary: s res shift buf)
  case 0
  then show ?case by auto
next
  case (Suc k)
  from Suc.prems(1) obtain c where c: "r s = ((Some c, None), snd (r s))" "bit c 7"
    and rest: "continues r (snd (r s)) k"
    by (rule continues_SucD)
  from Suc.prems(2) have le: "shift + 7 \<le> 32" "(shift + 7) + 7 * k \<le> 32"
    by simp_all
  from Suc.IH [OF rest le(2)] obtain res' buf' where
    "DecodeU32_loop r (snd (r s)) (res OR push_bit shift (ucast (take_bit 7 c))) (shift + 7) c =
       DecodeU32_loop r (reads_after r (snd (r s)) k) res' (shift + 7 + 7 * k) buf'"
    by blast
  moreover have "DecodeU32_loop r s res shift buf =
      DecodeU32_loop r (snd (r s)) (res OR push_bit shift (ucast (take_bit 7 c))) (shift + 7) c"
    using c le(1) DecodeU32_loop_byte [of r s c "snd (r s)" res shift buf] by simp
  ultimately have "DecodeU32_loop r s res shift buf =
      DecodeU32_loop r (reads_after r s (Suc k)) res' (shift + 7 * Suc k) buf'"
    by (simp add: add.assoc)
  then show ?case by blast
qed

lemma DecodeU64_loop_eof:
  "r s = ((stored, Some EOF), s') \<Longrightarrow> DecodeU64_loop r s res shift buf = (Inl ErrNonMinimal, s')"
  by (subst DecodeU64_loop.simps) simp

lemma DecodeU64_loop_err:
  "r s = ((stored, Some e), s') \<Longrightarrow> e \<noteq> EOF \<Longrightarrow> DecodeU64_loop r s res shift buf = (Inl e, s')"
  by (subst DecodeU64_loop.simps) simp

lemma DecodeU64_loop_byte:
  "r s = ((Some b, None), s') \<Longrightarrow> DecodeU64_loop r s res shift buf =
    (if \<not> bit b 7 then
       (if 64 < shift + 7 \<and> 1 < b then (Inl ErrOverflow, s')
        else if 0 < shift \<and> b = 0 then (Inl ErrNonMinimal, s')
        else (Inr (res OR push_bit shift (ucast (take_bit 7 b))), s'))
     else if 64 < shift + 7 then (Inl ErrOverflow, s')
     else DecodeU64_loop r s' (res OR push_bit shift (ucast (take_bit 7 b))) (shift + 7) b)"
  by (subst DecodeU64_loop.simps) (simp add: byte_flag byte_payload Let_def)

lemma DecodeU64_loop_continues:
  assumes "continues r s k" and "shift + 7 * k \<le> 64"
  shows "\<exists>res' buf'. DecodeU64_loop r s res shift buf =
           DecodeU64_loop r (reads_after r s k) res' (shift + 7 * k) buf'"
  using assms
proof (induction k arbitrary: s res shift buf)
  case 0
  then show ?case by auto
next
  case (Suc k)
  from Suc.prems(1) obtain c where c: "r s = ((Some c, None), snd (r s))" "bit c 7"
    and rest: "continues r (snd (r s)) k"
    by (rule continues_SucD)
  from Suc.prems(2) have le: "shift + 7 \<le> 64" "(shift + 7) + 7 * k \<le> 64"
    by simp_all
  from Suc.IH [OF rest le(2)] obtain res' buf' where
    "DecodeU64_loop r (snd (r s)) (res OR push_bit shift (ucast (take_bit 7 c))) (shift + 7) c =
       DecodeU64_loop r (reads_after r (snd (r s)) k) res' (shift + 7 + 7 * k) buf'"
    by blast
  moreover have "DecodeU64_loop r s res shift buf =
      DecodeU64_loop r (snd (r s)) (res OR push_bit shift (ucast (take_bit 7 c))) (shift + 7) c"
    using c le(1) DecodeU64_loop_byte [of r s c "snd (r s)" res shift buf] by simp
  ultimately have "DecodeU64_loop r s res shift buf =
      DecodeU64_loop r (reads_after r s (Suc k)) res' (shift + 7 * Suc k) buf'"
    by (simp add: add.assoc)
  then show ?case by blast
qed

lemma DecodeS64_loop_eof:
  "r s = ((stored, Some EOF), s') \<Longrightarrow> DecodeS64_loop r s res shift prev buf = (Inl ErrNonMinimal, s')"
  by (subst DecodeS64_loop.simps) simp

lemma DecodeS64_loop_err:
  "r s = ((stored, Some e), s') \<Longrightarrow> e \<noteq> EOF \<Longrightarrow> DecodeS64_loop r s res shift prev buf = (Inl e, s')"
  by (subst DecodeS64_loop.simps) simp

lemma DecodeS64_loop_byte:
  "r s = ((Some b, None), s') \<Longrightarrow> DecodeS64_loop r s res shift prev buf =
    (if \<not> bit b 7 then
       (if 64 < shift + 7 \<and> b \<noteq> 0 \<and> b \<noteq> 0x7F then (Inl ErrOverflow, s')
        else if 0 < shift \<and> ((b = 0 \<and> \<not> bit prev 6) \<or> (b = 0x7F \<and> bit prev 6))
          then (Inl ErrNonMinimal, s')
        else if shift + 7 < 64 \<and> bit b 6
          then (Inr ((res OR push_bit shift (ucast (take_bit 7 b))) OR push_bit (shift + 7) (- 1)), s')
        else (Inr (res OR push_bit shift (ucast (take_bit 7 b))), s'))
     else if 64 < shift + 7 then (Inl ErrOverflow, s')
     else DecodeS64_loop r s' (res OR push_bit shift (ucast (take_bit 7 b))) (shift + 7) b b)"
  by (subst DecodeS64_loop.simps) (simp add: byte_flag byte_payload byte_sign byte_sign_pos Let_def)

lemma DecodeS64_loop_continues:
  assumes "continues r s k" and "shift + 7 * k \<le> 64"
  shows "\<exists>res' prev' buf'. DecodeS64_loop r s res shift prev buf =
           DecodeS64_loop r (reads_after r s k) res' (shift + 7 * k) prev' buf'"
  using assms
proof (induction k arbitrary: s res shift prev buf)
  case 0
  then show ?case by auto
next
  case (Suc k)
  from Suc.prems(1) obtain c where c: "r s = ((Some c, None), snd (r s))" "bit c 7"
    and rest: "continues r (snd (r s)) k"
    by (rule continues_SucD)
  from Suc.prems(2) have le: "shift + 7 \<le> 64" "(shift + 7) + 7 * k \<le> 64"
    by simp_all
  from Suc.IH [OF rest le(2)] obtain res' prev' buf' where
    "DecodeS64_loop r (snd (r s)) (res OR push_bit shift (ucast (take_bit 7 c))) (shift + 7) c c =
       DecodeS64_loop r (reads_after r (snd (r s)) k) res' (shift + 7 + 7 * k) prev' buf'"
    by blast
  moreover have "DecodeS64_loop r s res shift prev buf =
      DecodeS64_loop r (snd (r s)) (res OR push_bit shift (ucast (take_bit 7 c))) (shift + 7) c c"
    using c le(1) DecodeS64_loop_byte [of r s c "snd (r s)" res shift prev buf] by simp
  ultimately have "DecodeS64_loop r s res shift prev buf =
      DecodeS64_loop r (reads_after r s (Suc k)) res' (shift + 7 * Suc k) prev' buf'"
    by (simp add: add.assoc)
  then show ?case by blast
qed



lemma continues_Suc_end:
  "continues r s (Suc k) \<longleftrightarrow>
    continues r s k \<and>
    (\<exists>c. r (reads_after r s k) = ((Some c, None), reads_after r s (Suc k)) \<and> bit c 7)"
proof (induction k arbitrary: s)
  case 0
  show ?case
    by (cases "r s") (auto simp add: byte_flag split: option.splits)
next
  case (Suc k)
  show ?case
    by (subst continues.simps, subst Suc.IH) (auto split: option.splits prod.splits)
qed

lemma continues_numeral:
  "continues r s (numeral n) =
    (case fst (r s) of
      (Some c, None) \<Rightarrow> c AND 0x80 \<noteq> 0 \<and> continues r (snd (r s)) (pred_numeral n)
    | _ \<Rightarrow> False)"
  by (simp add: numeral_eq_Suc)

lemma reads_after_numeral:
  "reads_after r s (numeral n) = reads_after r (snd (r s)) (pred_numeral n)"
  by (simp add: numeral_eq_Suc)

lemma reads_after_Suc: "reads_after r s (Suc k) = snd (r (reads_after r s k))"
  by (induction k arbitrary: s) simp_all

lemma byte_clear_payload: "(b :: byte) AND 0x80 = 0 \<Longrightarrow> b AND 0x7F = b"
  unfolding byte_flag byte_payload
  by (rule bit_word_eqI) (auto simp add: bit_simps less_Suc_eq numeral_eq_Suc)

lemma DecodeU32_continues:
  assumes "continues r s k" and "k \<le> 4"
  shows "\<exists>res' buf'. DecodeU32 r s = DecodeU32_loop r (reads_after r s k) res' (7 * k) buf'"
  using DecodeU32_loop_continues [OF assms(1), of 0 0 0] assms(2)
  by (simp add: DecodeU32_def)

lemma DecodeU64_continues:
  assumes "continues r s k" and "k \<le> 9"
  shows "\<exists>res' buf'. DecodeU64 r s = DecodeU64_loop r (reads_after r s k) res' (7 * k) buf'"
  using DecodeU64_loop_continues [OF assms(1), of 0 0 0] assms(2)
  by (simp add: DecodeU64_def)

lemma DecodeS64_continues:
  assumes "continues r s k" and "k \<le> 9"
  shows "\<exists>res' prev' buf'. DecodeS64 r s = DecodeS64_loop r (reads_after r s k) res' (7 * k) prev' buf'"
  using DecodeS64_loop_continues [OF assms(1), of 0 0 0 0] assms(2)
  by (simp add: DecodeS64_def)

lemma byte_not_0_1: "(b :: byte) \<noteq> 0 \<Longrightarrow> b \<noteq> 1 \<Longrightarrow> 1 < b"
  by (metis word_less_1 not_less_iff_gr_or_eq)

section \<open>Error behaviour of the decoders\<close>

text \<open>
  Claim C5.  In each of \<open>DecodeU32\<close>, \<open>DecodeU64\<close> and \<open>DecodeS64\<close>: when a read signals
  end of input (\<open>io.EOF\<close>) before any byte with a clear continuation flag has been read,
  on the very first read (\<open>k = 0\<close>) or after \<open>k\<close> continuation bytes, the operation fails
  with \<open>ErrNonMinimal\<close>, and that read was its last.  The decoders read at most 5
  (\<open>DecodeU32\<close>) or 10 bytes: a fifth (tenth) continuation byte already ends the
  operation with \<open>ErrOverflow\<close>, and no later read takes place in which the source could
  signal anything.
\<close>

theorem Decode_end_of_input:
  "(continues r s k \<and> k \<le> 4 \<and> snd (fst (r (reads_after r s k))) = Some EOF \<longrightarrow>
      DecodeU32 r s = (Inl ErrNonMinimal, reads_after r s (Suc k))) \<and>
   (continues r s k \<and> k \<le> 9 \<and> snd (fst (r (reads_after r s k))) = Some EOF \<longrightarrow>
      DecodeU64 r s = (Inl ErrNonMinimal, reads_after r s (Suc k))) \<and>
   (continues r s k \<and> k \<le> 9 \<and> snd (fst (r (reads_after r s k))) = Some EOF \<longrightarrow>
      DecodeS64 r s = (Inl ErrNonMinimal, reads_after r s (Suc k))) \<and>
   (continues r s 5 \<longrightarrow> DecodeU32 r s = (Inl ErrOverflow, reads_after r s 5)) \<and>
   (continues r s 10 \<longrightarrow> DecodeU64 r s = (Inl ErrOverflow, reads_after r s 10)) \<and>
   (continues r s 10 \<longrightarrow> DecodeS64 r s = (Inl ErrOverflow, reads_after r s 10))"
proof (intro conjI impI; (elim conjE)?)
  show "DecodeU32 r s = (Inl ErrOverflow, reads_after r s 5)" if "continues r s 5"
  proof -
    from that obtain c where k: "continues r s 4"
      and c: "r (reads_after r s 4) = ((Some c, None), reads_after r s 5)" "bit c 7"
      using continues_Suc_end [of r s 4] by (auto simp add: eval_nat_numeral simp del: continues.simps reads_after.simps)
    from DecodeU32_continues [OF k] obtain res' buf' where
      "DecodeU32 r s = DecodeU32_loop r (reads_after r s 4) res' (7 * 4) buf'"
      by auto
    then show ?thesis
      using c(2) DecodeU32_loop_byte [of r "reads_after r s 4" c _ res' "7 * 4" buf', OF c(1)]
      by simp
  qed
  show "DecodeU64 r s = (Inl ErrOverflow, reads_after r s 10)" if "continues r s 10"
  proof -
    from that obtain c where k: "continues r s 9"
      and c: "r (reads_after r s 9) = ((Some c, None), reads_after r s 10)" "bit c 7"
      using continues_Suc_end [of r s 9] by (auto simp add: eval_nat_numeral simp del: continues.simps reads_after.simps)
    from DecodeU64_continues [OF k] obtain res' buf' where
      "DecodeU64 r s = DecodeU64_loop r (reads_after r s 9) res' (7 * 9) buf'"
      by auto
    then show ?thesis
      using c(2) DecodeU64_loop_byte [of r "reads_after r s 9" c _ res' "7 * 9" buf', OF c(1)]
      by simp
  qed
  show "DecodeS64 r s = (Inl ErrOverflow, reads_after r s 10)" if "continues r s 10"
  proof -
    from that obtain c where k: "continues r s 9"
      and c: "r (reads_after r s 9) = ((Some c, None), reads_after r s 10)" "bit c 7"
      using continues_Suc_end [of r s 9] by (auto simp add: eval_nat_numeral simp del: continues.simps reads_after.simps)
    from DecodeS64_continues [OF k] obtain res' prev' buf' where
      "DecodeS64 r s = DecodeS64_loop r (reads_after r s 9) res' (7 * 9) prev' buf'"
      by auto
    then show ?thesis
      using c(2) DecodeS64_loop_byte [of r "reads_after r s 9" c _ res' "7 * 9" prev' buf', OF c(1)]
      by simp
  qed
next
  assume k: "continues r s k" and e: "snd (fst (r (reads_after r s k))) = Some EOF"
  define sk where "sk = reads_after r s k"
  from e have last: "r sk = ((fst (fst (r sk)), Some EOF), reads_after r s (Suc k))"
    unfolding reads_after_Suc sk_def by (metis prod.collapse)
  show "DecodeU32 r s = (Inl ErrNonMinimal, reads_after r s (Suc k))" if "k \<le> 4"
    using DecodeU32_continues [OF k that] DecodeU32_loop_eof [of r sk, OF last]
    unfolding sk_def by auto
  show "DecodeU64 r s = (Inl ErrNonMinimal, reads_after r s (Suc k))" if "k \<le> 9"
    using DecodeU64_continues [OF k that] DecodeU64_loop_eof [of r sk, OF last]
    unfolding sk_def by auto
  show "DecodeS64 r s = (Inl ErrNonMinimal, reads_after r s (Suc k))" if "k \<le> 9"
    using DecodeS64_continues [OF k that] DecodeS64_loop_eof [of r sk, OF last]
    unfolding sk_def by auto
qed

theorem Decode_end_of_input_witness:
  "continues (bytes_reader :: (byte list, unit) reader) [0x80, 0x80] 2 \<and>
   snd (fst ((bytes_reader :: (byte list, unit) reader) (reads_after (bytes_reader :: (byte list, unit) reader) [0x80, 0x80] 2))) = Some EOF \<and>
   DecodeU32 (bytes_reader :: (byte list, unit) reader) [0x80, 0x80] = (Inl ErrNonMinimal, []) \<and>
   DecodeU64 (bytes_reader :: (byte list, unit) reader) [0x80, 0x80] = (Inl ErrNonMinimal, []) \<and>
   DecodeS64 (bytes_reader :: (byte list, unit) reader) [0x80, 0x80] = (Inl ErrNonMinimal, []) \<and>
   continues (bytes_reader :: (byte list, unit) reader)
     [0x80, 0x80, 0x80, 0x80, 0x80, 0x80, 0x80, 0x80, 0x80, 0x80, 1] 10 \<and>
   DecodeU32 (bytes_reader :: (byte list, unit) reader)
     [0x80, 0x80, 0x80, 0x80, 0x80, 0x80, 0x80, 0x80, 0x80, 0x80, 1] =
     (Inl ErrOverflow, [0x80, 0x80, 0x80, 0x80, 0x80, 1]) \<and>
   DecodeU64 (bytes_reader :: (byte list, unit) reader)
     [0x80, 0x80, 0x80, 0x80, 0x80, 0x80, 0x80, 0x80, 0x80, 0x80, 1] = (Inl ErrOverflow, [1]) \<and>
   DecodeS64 (bytes_reader :: (byte list, unit) reader)
     [0x80, 0x80, 0x80, 0x80, 0x80, 0x80, 0x80, 0x80, 0x80, 0x80, 1] = (Inl ErrOverflow, [1])"
  using Decode_end_of_input [of "bytes_reader :: (byte list, unit) reader" "[0x80, 0x80]" 2]
    Decode_end_of_input [of "bytes_reader :: (byte list, unit) reader"
      "[0x80, 0x80, 0x80, 0x80, 0x80, 0x80, 0x80, 0x80, 0x80, 0x80, 1]" 0]
  by (simp add: continues_numeral reads_after_numeral)


text \<open>
  Claim C9.  In each of \<open>DecodeU32\<close>, \<open>DecodeU64\<close> and \<open>DecodeS64\<close>: when a read returns an
  error \<open>e\<close> other than \<open>io.EOF\<close>, on the first read or after \<open>k\<close> continuation bytes, the
  operation returns exactly \<open>e\<close> (not \<open>ErrOverflow\<close> or \<open>ErrNonMinimal\<close> in its place), and
  the reader is left in the state that failing read put it in: nothing is read again.
\<close>

theorem Decode_source_failure:
  "(continues r s k \<and> k \<le> 4 \<and> snd (fst (r (reads_after r s k))) = Some e \<and> e \<noteq> EOF \<longrightarrow>
      DecodeU32 r s = (Inl e, reads_after r s (Suc k))) \<and>
   (continues r s k \<and> k \<le> 9 \<and> snd (fst (r (reads_after r s k))) = Some e \<and> e \<noteq> EOF \<longrightarrow>
      DecodeU64 r s = (Inl e, reads_after r s (Suc k))) \<and>
   (continues r s k \<and> k \<le> 9 \<and> snd (fst (r (reads_after r s k))) = Some e \<and> e \<noteq> EOF \<longrightarrow>
      DecodeS64 r s = (Inl e, reads_after r s (Suc k)))"
proof (intro conjI impI; elim conjE)
  assume k: "continues r s k" and e: "snd (fst (r (reads_after r s k))) = Some e" and ne: "e \<noteq> EOF"
  define sk where "sk = reads_after r s k"
  from e have last: "r sk = ((fst (fst (r sk)), Some e), reads_after r s (Suc k))"
    unfolding reads_after_Suc sk_def by (metis prod.collapse)
  show "DecodeU32 r s = (Inl e, reads_after r s (Suc k))" if "k \<le> 4"
    using DecodeU32_continues [OF k that] DecodeU32_loop_err [of r sk, OF last ne]
    unfolding sk_def by auto
  show "DecodeU64 r s = (Inl e, reads_after r s (Suc k))" if "k \<le> 9"
    using DecodeU64_continues [OF k that] DecodeU64_loop_err [of r sk, OF last ne]
    unfolding sk_def by auto
  show "DecodeS64 r s = (Inl e, reads_after r s (Suc k))" if "k \<le> 9"
    using DecodeS64_continues [OF k that] DecodeS64_loop_err [of r sk, OF last ne]
    unfolding sk_def by auto
qed

theorem Decode_source_failure_witness:
  "continues (script_reader :: (unit outcome list, unit) reader) [(Some 0x80, None), (Some 5, Some (Other ())), (Some 1, None)] 1 \<and>
   snd (fst ((script_reader :: (unit outcome list, unit) reader) (reads_after (script_reader :: (unit outcome list, unit) reader)
     [(Some 0x80, None), (Some 5, Some (Other ())), (Some 1, None)] 1))) = Some (Other ()) \<and>
   DecodeU32 (script_reader :: (unit outcome list, unit) reader) [(Some 0x80, None), (Some 5, Some (Other ())), (Some 1, None)] =
     (Inl (Other ()), [(Some 1, None)]) \<and>
   DecodeU64 (script_reader :: (unit outcome list, unit) reader) [(Some 0x80, None), (Some 5, Some (Other ())), (Some 1, None)] =
     (Inl (Other ()), [(Some 1, None)]) \<and>
   DecodeS64 (script_reader :: (unit outcome list, unit) reader) [(Some 0x80, None), (Some 5, Some (Other ())), (Some 1, None)] =
     (Inl (Other ()), [(Some 1, None)])"
  using Decode_source_failure [of "(script_reader :: (unit outcome list, unit) reader)"
      "[(Some 0x80, None), (Some 5, Some (Other ())), (Some 1, None)]" 1 "Other ()"]
  by simp

text \<open>
  Claim C6.  \<open>DecodeU32\<close> fails with \<open>ErrOverflow\<close> when it reads a terminating byte
  (continuation flag clear) with the shift counter, already advanced by 7, above 32 and
  the byte's payload above \<open>0b1111\<close>.  The counter is above 32 exactly for the fifth
  byte of an encoding, so a fifth byte with more than four payload bits is refused; in
  particular \<open>[0xFF, 0xFF, 0xFF, 0xFF, 0x10]\<close> is.
\<close>

theorem DecodeU32_overflow:
  "(r s = ((Some b, None), s') \<and> b AND 0x80 = 0 \<and> 32 < shift + 7 \<and> 0b1111 < b AND 0x7F \<longrightarrow>
      DecodeU32_loop r s res shift buf = (Inl ErrOverflow, s')) \<and>
   (continues r s 4 \<and> r (reads_after r s 4) = ((Some b, None), s') \<and>
      b AND 0x80 = 0 \<and> 0b1111 < b AND 0x7F \<longrightarrow>
      DecodeU32 r s = (Inl ErrOverflow, s')) \<and>
   DecodeU32 bytes_reader [0xFF, 0xFF, 0xFF, 0xFF, 0x10] = (Inl ErrOverflow, [])"
proof (intro conjI impI; (elim conjE)?)
  show "DecodeU32_loop r s res shift buf = (Inl ErrOverflow, s')"
    if "r s = ((Some b, None), s')" "b AND 0x80 = 0" "32 < shift + 7" "0b1111 < b AND 0x7F"
    using that DecodeU32_loop_byte [of r s b s' res shift buf]
    by (simp add: byte_clear_payload byte_flag)
  show "DecodeU32 r s = (Inl ErrOverflow, s')"
    if "continues r s 4" "r (reads_after r s 4) = ((Some b, None), s')"
      "b AND 0x80 = 0" "0b1111 < b AND 0x7F"
  proof -
    from DecodeU32_continues [OF that(1)] obtain res' buf' where
      "DecodeU32 r s = DecodeU32_loop r (reads_after r s 4) res' (7 * 4) buf'"
      by auto
    then show ?thesis
      using that(3,4) DecodeU32_loop_byte [of r "reads_after r s 4" b s' res' "7 * 4" buf', OF that(2)]
      by (simp add: byte_clear_payload byte_flag)
  qed
  show "DecodeU32 bytes_reader [0xFF, 0xFF, 0xFF, 0xFF, 0x10] = (Inl ErrOverflow, [])"
    by (simp add: DecodeU32_def DecodeU32_loop_Cons)
qed


theorem DecodeU32_overflow_witness:
  "(bytes_reader :: (byte list, unit) reader) [0x10] = ((Some 0x10, None), []) \<and> (0x10 :: byte) AND 0x80 = 0 \<and>
   (32 :: nat) < 28 + 7 \<and> 0b1111 < (0x10 :: byte) AND 0x7F \<and>
   DecodeU32_loop (bytes_reader :: (byte list, unit) reader) [0x10] 0 28 0 = (Inl ErrOverflow, []) \<and>
   continues (bytes_reader :: (byte list, unit) reader) [0xFF, 0xFF, 0xFF, 0xFF, 0x10] 4 \<and>
   (bytes_reader :: (byte list, unit) reader) (reads_after (bytes_reader :: (byte list, unit) reader) [0xFF, 0xFF, 0xFF, 0xFF, 0x10] 4) = ((Some 0x10, None), []) \<and>
   DecodeU32 (bytes_reader :: (byte list, unit) reader) [0xFF, 0xFF, 0xFF, 0xFF, 0x10] = (Inl ErrOverflow, [])"
  using DecodeU32_overflow [of "(bytes_reader :: (byte list, unit) reader)" "[0x10]" "0x10" "[]" 28 0 0]
    DecodeU32_overflow [of "(bytes_reader :: (byte list, unit) reader)" "[0xFF, 0xFF, 0xFF, 0xFF, 0x10]" "0x10" "[]"]
  by (simp add: continues_numeral reads_after_numeral)

text \<open>
  Claim C7.  \<open>DecodeU64\<close> fails with \<open>ErrOverflow\<close> at the 64-bit thresholds: on a
  continuation byte (flag set) once the advanced shift counter is above 64, and on a
  terminating byte when the counter is above 64 and the byte's payload is above 1.  The
  counter is above 64 exactly for the tenth byte, so a tenth byte other than 0 or 1 is an
  overflow, and the tenth byte 1 is accepted and contributes bit 63.
\<close>

theorem DecodeU64_overflow:
  "(r s = ((Some b, None), s') \<and> b AND 0x80 \<noteq> 0 \<and> 64 < shift + 7 \<longrightarrow>
      DecodeU64_loop r s res shift buf = (Inl ErrOverflow, s')) \<and>
   (r s = ((Some b, None), s') \<and> b AND 0x80 = 0 \<and> 64 < shift + 7 \<and> 1 < b AND 0x7F \<longrightarrow>
      DecodeU64_loop r s res shift buf = (Inl ErrOverflow, s')) \<and>
   (continues r s 9 \<and> r (reads_after r s 9) = ((Some b, None), s') \<and> b \<noteq> 0 \<and> b \<noteq> 1 \<longrightarrow>
      DecodeU64 r s = (Inl ErrOverflow, s')) \<and>
   (continues r s 9 \<and> r (reads_after r s 9) = ((Some 1, None), s') \<longrightarrow>
      (\<exists>v. DecodeU64 r s = (Inr v, s') \<and> bit v 63))"
proof (intro conjI impI; (elim conjE)?)
  show "DecodeU64_loop r s res shift buf = (Inl ErrOverflow, s')"
    if "r s = ((Some b, None), s')" "b AND 0x80 \<noteq> 0" "64 < shift + 7"
    using that DecodeU64_loop_byte [of r s b s' res shift buf]
    by (simp add: byte_flag)
  show "DecodeU64_loop r s res shift buf = (Inl ErrOverflow, s')"
    if "r s = ((Some b, None), s')" "b AND 0x80 = 0" "64 < shift + 7" "1 < b AND 0x7F"
    using that DecodeU64_loop_byte [of r s b s' res shift buf]
    by (simp add: byte_clear_payload byte_flag)
  show "DecodeU64 r s = (Inl ErrOverflow, s')"
    if "continues r s 9" "r (reads_after r s 9) = ((Some b, None), s')" "b \<noteq> 0" "b \<noteq> 1"
  proof -
    from DecodeU64_continues [OF that(1)] obtain res' buf' where
      "DecodeU64 r s = DecodeU64_loop r (reads_after r s 9) res' (7 * 9) buf'"
      by auto
    then show ?thesis
      using byte_not_0_1 [OF that(3,4)]
        DecodeU64_loop_byte [of r "reads_after r s 9" b s' res' "7 * 9" buf', OF that(2)]
      by simp
  qed
  show "\<exists>v. DecodeU64 r s = (Inr v, s') \<and> bit v 63"
    if "continues r s 9" "r (reads_after r s 9) = ((Some 1, None), s')"
  proof -
    from DecodeU64_continues [OF that(1)] obtain res' buf' where
      "DecodeU64 r s = DecodeU64_loop r (reads_after r s 9) res' (7 * 9) buf'"
      by auto
    then have "DecodeU64 r s = (Inr (res' OR push_bit 63 1), s')"
      using DecodeU64_loop_byte [of r "reads_after r s 9" 1 s' res' "7 * 9" buf', OF that(2)]
      by simp
    moreover have "bit (res' OR push_bit 63 1) 63"
      by (simp add: bit_simps)
    ultimately show ?thesis
      by blast
  qed
qed

theorem DecodeU64_overflow_witness:
  "(bytes_reader :: (byte list, unit) reader) [0x80] = ((Some 0x80, None), []) \<and> (0x80 :: byte) AND 0x80 \<noteq> 0 \<and> (64 :: nat) < 63 + 7 \<and>
   DecodeU64_loop (bytes_reader :: (byte list, unit) reader) [0x80] 0 63 0 = (Inl ErrOverflow, []) \<and>
   (bytes_reader :: (byte list, unit) reader) [2] = ((Some 2, None), []) \<and> (2 :: byte) AND 0x80 = 0 \<and> 1 < (2 :: byte) AND 0x7F \<and>
   DecodeU64_loop (bytes_reader :: (byte list, unit) reader) [2] 0 63 0 = (Inl ErrOverflow, []) \<and>
   continues (bytes_reader :: (byte list, unit) reader) [0x80, 0x80, 0x80, 0x80, 0x80, 0x80, 0x80, 0x80, 0x80, 2] 9 \<and>
   (bytes_reader :: (byte list, unit) reader) (reads_after (bytes_reader :: (byte list, unit) reader) [0x80, 0x80, 0x80, 0x80, 0x80, 0x80, 0x80, 0x80, 0x80, 2] 9) =
     ((Some 2, None), []) \<and> (2 :: byte) \<noteq> 0 \<and> (2 :: byte) \<noteq> 1 \<and>
   DecodeU64 (bytes_reader :: (byte list, unit) reader) [0x80, 0x80, 0x80, 0x80, 0x80, 0x80, 0x80, 0x80, 0x80, 2] = (Inl ErrOverflow, []) \<and>
   continues (bytes_reader :: (byte list, unit) reader) [0x80, 0x80, 0x80, 0x80, 0x80, 0x80, 0x80, 0x80, 0x80, 1] 9 \<and>
   (bytes_reader :: (byte list, unit) reader) (reads_after (bytes_reader :: (byte list, unit) reader) [0x80, 0x80, 0x80, 0x80, 0x80, 0x80, 0x80, 0x80, 0x80, 1] 9) =
     ((Some 1, None), []) \<and>
   (\<exists>v. DecodeU64 (bytes_reader :: (byte list, unit) reader) [0x80, 0x80, 0x80, 0x80, 0x80, 0x80, 0x80, 0x80, 0x80, 1] = (Inr v, []) \<and>
      bit v 63)"
  using DecodeU64_overflow [of "(bytes_reader :: (byte list, unit) reader)" "[0x80]" "0x80" "[]" 63 0 0]
    DecodeU64_overflow [of "(bytes_reader :: (byte list, unit) reader)" "[2]" 2 "[]" 63 0 0]
    DecodeU64_overflow [of "(bytes_reader :: (byte list, unit) reader)" "[0x80, 0x80, 0x80, 0x80, 0x80, 0x80, 0x80, 0x80, 0x80, 2]" 2 "[]"]
    DecodeU64_overflow [of "(bytes_reader :: (byte list, unit) reader)" "[0x80, 0x80, 0x80, 0x80, 0x80, 0x80, 0x80, 0x80, 0x80, 1]" _ "[]"]
  by (simp add: continues_numeral reads_after_numeral)

text \<open>
  Claim C8.  \<open>DecodeS64\<close> fails with \<open>ErrNonMinimal\<close> when it reads a terminating byte with
  the advanced shift counter above 7 (so not as the first byte) and either the byte is 0
  while bit \<open>0x40\<close> of the previous byte is clear, or the byte is \<open>0x7F\<close> while that bit is
  set.  So it does after any \<open>k + 1 \<le> 9\<close> continuation bytes, the last of them being
  \<open>p\<close>; in particular \<open>[0xFF, 0x7F]\<close> is refused.
\<close>

theorem DecodeS64_overlong:
  "(r s = ((Some b, None), s') \<and> b AND 0x80 = 0 \<and> 7 < shift + 7 \<and>
      ((b = 0 \<and> prev AND 0x40 = 0) \<or> (b = 0x7F \<and> 0 < prev AND 0x40)) \<longrightarrow>
      DecodeS64_loop r s res shift prev buf = (Inl ErrNonMinimal, s')) \<and>
   (continues r s (Suc k) \<and> k \<le> 8 \<and> fst (fst (r (reads_after r s k))) = Some p \<and>
      r (reads_after r s (Suc k)) = ((Some b, None), s') \<and>
      ((b = 0 \<and> p AND 0x40 = 0) \<or> (b = 0x7F \<and> 0 < p AND 0x40)) \<longrightarrow>
      DecodeS64 r s = (Inl ErrNonMinimal, s')) \<and>
   DecodeS64 bytes_reader [0xFF, 0x7F] = (Inl ErrNonMinimal, [])"
proof (intro conjI impI; (elim conjE)?)
  show "DecodeS64_loop r s res shift prev buf = (Inl ErrNonMinimal, s')"
    if "r s = ((Some b, None), s')" "b AND 0x80 = 0" "7 < shift + 7"
      "(b = 0 \<and> prev AND 0x40 = 0) \<or> (b = 0x7F \<and> 0 < prev AND 0x40)"
    using that DecodeS64_loop_byte [of r s b s' res shift prev buf]
    by (auto simp add: byte_flag byte_sign byte_sign_pos)
  show "DecodeS64 r s = (Inl ErrNonMinimal, s')"
    if "continues r s (Suc k)" "k \<le> 8" "fst (fst (r (reads_after r s k))) = Some p"
      "r (reads_after r s (Suc k)) = ((Some b, None), s')"
      "(b = 0 \<and> p AND 0x40 = 0) \<or> (b = 0x7F \<and> 0 < p AND 0x40)"
  proof -
    from that(1,3) have k: "continues r s k"
      and p: "r (reads_after r s k) = ((Some p, None), reads_after r s (Suc k))" "bit p 7"
      by (auto simp add: continues_Suc_end simp del: continues.simps reads_after.simps)
    from that(2) have "k \<le> 9" by simp
    from DecodeS64_continues [OF k this] obtain res' prev' buf' where
      "DecodeS64 r s = DecodeS64_loop r (reads_after r s k) res' (7 * k) prev' buf'"
      by auto
    also have "\<dots> = DecodeS64_loop r (reads_after r s (Suc k))
        (res' OR push_bit (7 * k) (ucast (take_bit 7 p))) (7 * k + 7) p p"
      using that(2) p(2) DecodeS64_loop_byte [of r "reads_after r s k" p _ res' "7 * k" prev' buf', OF p(1)]
      by simp
    also have "\<dots> = (Inl ErrNonMinimal, s')"
      using that(5) DecodeS64_loop_byte [of r "reads_after r s (Suc k)" b s' _ "7 * k + 7" p p, OF that(4)]
      by (auto simp add: byte_sign byte_sign_pos)
    finally show ?thesis .
  qed
  show "DecodeS64 bytes_reader [0xFF, 0x7F] = (Inl ErrNonMinimal, [])"
    by (simp add: DecodeS64_def DecodeS64_loop_byte [of bytes_reader])
qed


theorem DecodeS64_overlong_witness:
  "(bytes_reader :: (byte list, unit) reader) [0x7F] = ((Some 0x7F, None), []) \<and> (0x7F :: byte) AND 0x80 = 0 \<and> (7 :: nat) < 7 + 7 \<and>
   0 < (0xFF :: byte) AND 0x40 \<and>
   DecodeS64_loop (bytes_reader :: (byte list, unit) reader) [0x7F] 0x7F 7 0xFF 0xFF = (Inl ErrNonMinimal, []) \<and>
   continues (bytes_reader :: (byte list, unit) reader) [0xFF, 0x7F] (Suc 0) \<and> (0 :: nat) \<le> 8 \<and>
   fst (fst ((bytes_reader :: (byte list, unit) reader) (reads_after (bytes_reader :: (byte list, unit) reader) [0xFF, 0x7F] 0))) = Some 0xFF \<and>
   (bytes_reader :: (byte list, unit) reader) (reads_after (bytes_reader :: (byte list, unit) reader) [0xFF, 0x7F] (Suc 0)) = ((Some 0x7F, None), []) \<and>
   DecodeS64 (bytes_reader :: (byte list, unit) reader) [0xFF, 0x7F] = (Inl ErrNonMinimal, [])"
  using DecodeS64_overlong [of "(bytes_reader :: (byte list, unit) reader)" "[0x7F]" "0x7F" "[]" 7 "0xFF" "0x7F" "0xFF"]
    DecodeS64_overlong [of "(bytes_reader :: (byte list, unit) reader)" "[0xFF, 0x7F]" "0x7F" "[]" _ _ _ _ 0 "0xFF"]
  by simp

section \<open>Round trip of the signed codec\<close>

text \<open>
  As for the unsigned codecs, with the arithmetic shift in place of the logical one; the
  invariant also records that \<open>prev\<close> carries the sign bit of the group before and that
  the encoder had no reason to stop there.
\<close>

lemma accumulate_signed:
  "take_bit shift v OR push_bit shift (take_bit 7 (signed_drop_bit shift v)) =
     take_bit (shift + 7) (v :: 'a::len word)"
  by (rule bit_word_eqI) (auto simp add: bit_simps)

lemma sign_bit_of_group:
  "shift + 6 < 64 \<Longrightarrow> bit (signed_drop_bit shift (v :: int64)) 6 \<longleftrightarrow> bit v (shift + 6)"
  by (auto simp add: bit_simps)

lemma sign_fill_ones:
  assumes "signed_drop_bit n (v :: int64) = - 1" and "n < 64"
  shows "take_bit n v OR push_bit n (- 1) = v"
proof (rule bit_word_eqI)
  fix m assume m: "m < LENGTH(64)"
  have "bit (signed_drop_bit n v) (m - n)"
    using m by (simp add: assms(1) less_imp_diff_less)
  then have "n \<le> m \<Longrightarrow> bit v m"
    using m assms(2) by (auto simp add: bit_simps split: if_splits)
  then show "bit (take_bit n v OR push_bit n (- 1)) m \<longleftrightarrow> bit v m"
    using m by (cases "n \<le> m") (auto simp add: bit_simps)
qed

lemma sign_fill_zeros:
  assumes "signed_drop_bit n (v :: int64) = 0" and "n < 64"
  shows "take_bit n v = v"
proof (rule bit_word_eqI)
  fix m assume m: "m < LENGTH(64)"
  have "\<not> bit (signed_drop_bit n v) (m - n)"
    by (simp add: assms(1))
  then have "n \<le> m \<Longrightarrow> \<not> bit v m"
    using m assms(2) by (auto simp add: bit_simps split: if_splits)
  then show "bit (take_bit n v) m \<longleftrightarrow> bit v m"
    using m by (cases "n \<le> m") (auto simp add: bit_simps)
qed

lemma all_zero:
  assumes "signed_drop_bit 7 (num :: int64) = 0" and "take_bit 7 num = 0"
  shows "num = 0"
  using sign_fill_zeros [OF assms(1)] assms(2) by simp

lemma all_ones:
  assumes "signed_drop_bit 7 (num :: int64) = - 1" and "take_bit 7 num = 0x7F"
  shows "num = - 1"
proof -
  have "take_bit 7 num OR push_bit 7 (- 1) = num"
    using assms(1) by (rule sign_fill_ones) simp
  then have "num = 0x7F OR push_bit 7 (- 1)"
    by (simp only: assms(2))
  also have "\<dots> = mask 7 OR push_bit 7 (- 1)"
    by (simp add: mask_eq_exp_minus_1)
  also have "\<dots> = - 1"
    by (rule bit_word_eqI) (auto simp add: bit_simps)
  finally show ?thesis .
qed

lemma payload_7F_iff:
  "(ucast (take_bit 7 (num :: int64)) :: byte) = 0x7F \<longleftrightarrow> take_bit 7 num = 0x7F"
proof
  assume "(ucast (take_bit 7 num) :: byte) = 0x7F"
  then have "(ucast (ucast (take_bit 7 num) :: byte) :: int64) = ucast (0x7F :: byte)"
    by (rule arg_cong)
  then show "take_bit 7 num = 0x7F"
    by (simp only: payload_back) simp
next
  assume "take_bit 7 num = 0x7F"
  then show "(ucast (take_bit 7 num) :: byte) = 0x7F"
    by simp
qed


lemma DecodeS64_loop_last:
  assumes "\<not> bit b 7" and "\<not> (64 < shift + 7 \<and> b \<noteq> 0 \<and> b \<noteq> 0x7F)"
    and "\<not> (0 < shift \<and> ((b = 0 \<and> \<not> bit prev 6) \<or> (b = 0x7F \<and> bit prev 6)))"
  shows "DecodeS64_loop bytes_reader (b # bs) res shift prev buf =
           (Inr (if shift + 7 < 64 \<and> bit b 6
                 then (res OR push_bit shift (ucast (take_bit 7 b))) OR push_bit (shift + 7) (- 1)
                 else res OR push_bit shift (ucast (take_bit 7 b))), bs)"
  using assms DecodeS64_loop_byte [of bytes_reader "b # bs" b bs res shift prev buf]
  by auto

lemma DecodeS64_loop_more:
  assumes "bit b 7" and "shift + 7 \<le> 64"
  shows "DecodeS64_loop bytes_reader (b # bs) res shift prev buf =
           DecodeS64_loop bytes_reader bs (res OR push_bit shift (ucast (take_bit 7 b))) (shift + 7) b b"
  using assms DecodeS64_loop_byte [of bytes_reader "b # bs" b bs res shift prev buf]
  by auto

lemma DecodeS64_loop_EncodeS64_loop:
  assumes "k \<le> 9"
    and "0 < k \<longrightarrow> (bit prev 6 \<longleftrightarrow> bit v (7 * k - 1)) \<and>
           \<not> ((signed_drop_bit (7 * k) v = 0 \<and> \<not> bit v (7 * k - 1)) \<or>
              (signed_drop_bit (7 * k) v = - 1 \<and> bit v (7 * k - 1)))"
  shows "DecodeS64_loop (bytes_reader :: (byte list, 'e) reader)
           (EncodeS64_loop (signed_drop_bit (7 * k) v) [] @ rest)
           (take_bit (7 * k) v) (7 * k) prev buf = (Inr v, rest)"
  using assms
proof (induction "9 - k" arbitrary: k prev buf rule: less_induct)
  case less
  let ?dec = "DecodeS64_loop (bytes_reader :: (byte list, 'e) reader)"
  define sh where "sh = 7 * k"
  define num where "num = signed_drop_bit sh v"
  define b :: byte where "b = ucast (take_bit 7 num)"
  define fin where "fin \<longleftrightarrow>
    (signed_drop_bit 7 num = 0 \<and> \<not> bit num 6) \<or> (signed_drop_bit 7 num = - 1 \<and> bit num 6)"
  have sh': "sh + 7 = 7 * (k + 1)"
    by (simp add: sh_def)
  have sh_le: "sh \<le> 63"
    using less.prems(1) by (simp add: sh_def)
  have num': "signed_drop_bit 7 num = signed_drop_bit (sh + 7) v"
    by (simp add: num_def add.commute)
  have acc: "take_bit sh v OR push_bit sh (ucast b) = take_bit (sh + 7) v"
    by (simp only: b_def num_def payload_back accumulate_signed)
  have b6: "bit b 6 \<longleftrightarrow> bit num 6"
    unfolding b_def by (rule sign_of_payload)
  have top: "num = 0 \<or> num = - 1" if "k = 9"
    using that by (simp add: num_def sh_def signed_drop_bit_63)
  have fin9: "fin" if "k = 9"
    using top [OF that] by (auto simp add: fin_def)
  show ?case
  proof (cases fin)
    case True
    have enc: "EncodeS64_loop num [] = [b]"
      using True by (simp add: EncodeS64_loop_unfold [of num] b_def fin_def)
    have ovf: "\<not> (64 < sh + 7 \<and> b \<noteq> 0 \<and> b \<noteq> 0x7F)"
    proof
      assume "64 < sh + 7 \<and> b \<noteq> 0 \<and> b \<noteq> 0x7F"
      with less.prems(1) have "k = 9" and "b \<noteq> 0" and "b \<noteq> 0x7F"
        by (simp_all add: sh_def)
      with top show False
        by (auto simp add: b_def ucast_mask_eq mask_eq_exp_minus_1)
    qed
    have nm: "\<not> (0 < sh \<and> ((b = 0 \<and> \<not> bit prev 6) \<or> (b = 0x7F \<and> bit prev 6)))"
    proof
      assume a: "0 < sh \<and> ((b = 0 \<and> \<not> bit prev 6) \<or> (b = 0x7F \<and> bit prev 6))"
      then have "0 < k"
        by (simp add: sh_def)
      with less.prems(2) have prev: "bit prev 6 \<longleftrightarrow> bit v (sh - 1)"
        and nd: "\<not> ((num = 0 \<and> \<not> bit v (sh - 1)) \<or> (num = - 1 \<and> bit v (sh - 1)))"
        by (simp_all add: sh_def num_def)
      from a consider "b = 0" "\<not> bit prev 6" | "b = 0x7F" "bit prev 6"
        by blast
      then show False
      proof cases
        case 1
        then have t: "take_bit 7 num = 0"
          by (simp only: b_def payload_zero_iff)
        then have "\<not> bit num 6"
          using b6 1(1) by simp
        with True have "signed_drop_bit 7 num = 0"
          by (simp add: fin_def)
        then have "num = 0"
          using t by (rule all_zero)
        with nd prev 1(2) show False
          by simp
      next
        case 2
        then have t: "take_bit 7 num = 0x7F"
          by (simp only: b_def payload_7F_iff)
        have "bit num 6"
          using b6 2(1) by simp
        with True have "signed_drop_bit 7 num = - 1"
          by (simp add: fin_def)
        then have "num = - 1"
          using t by (rule all_ones)
        with nd prev 2(2) show False
          by simp
      qed
    qed
    have flag: "\<not> bit b 7"
      unfolding b_def by (rule flag_clear)
    have pl: "take_bit 7 b = b"
      unfolding b_def by (rule payload_plain)
    have val: "(if sh + 7 < 64 \<and> bit b 6
                then take_bit (sh + 7) v OR push_bit (sh + 7) (- 1)
                else take_bit (sh + 7) v) = v"
    proof (cases "sh + 7 < 64")
      case short: True
      show ?thesis
      proof (cases "bit b 6")
        case True
        with \<open>fin\<close> have "signed_drop_bit (sh + 7) v = - 1"
          by (simp add: fin_def b6 num')
        then have "take_bit (sh + 7) v OR push_bit (sh + 7) (- 1) = v"
          using short by (rule sign_fill_ones)
        with True short show ?thesis
          by simp
      next
        case False
        with \<open>fin\<close> have "signed_drop_bit (sh + 7) v = 0"
          by (simp add: fin_def b6 num')
        then have "take_bit (sh + 7) v = v"
          using short by (rule sign_fill_zeros)
        with False show ?thesis
          by simp
      qed
    next
      case False
      then have "take_bit (sh + 7) v = v"
        by (simp add: take_bit_word_eq_self)
      with False show ?thesis
        by simp
    qed
    have "?dec (EncodeS64_loop num [] @ rest) (take_bit sh v) sh prev buf =
            ?dec (b # rest) (take_bit sh v) sh prev buf"
      by (simp only: enc append_Cons append_Nil)
    also have "\<dots> = (Inr (if sh + 7 < 64 \<and> bit b 6
                 then (take_bit sh v OR push_bit sh (ucast (take_bit 7 b))) OR push_bit (sh + 7) (- 1)
                 else take_bit sh v OR push_bit sh (ucast (take_bit 7 b))), rest)"
      using flag ovf nm by (rule DecodeS64_loop_last)
    also have "\<dots> = (Inr v, rest)"
      by (simp only: pl acc val)
    finally show ?thesis
      by (simp only: num_def sh_def)
  next
    case False
    with fin9 less.prems(1) have k: "k + 1 \<le> 9"
      by (cases "k = 9") auto
    then have le: "sh + 7 \<le> 64" and six: "sh + 6 < 64"
      by (simp_all add: sh_def)
    have nf: "\<not> ((signed_drop_bit 7 num = 0 \<and> \<not> bit num 6) \<or>
        (signed_drop_bit 7 num = - 1 \<and> bit num 6))"
      using False unfolding fin_def .
    have "EncodeS64_loop num [] = (b OR 0x80) # EncodeS64_loop (signed_drop_bit 7 num) []"
      by (subst EncodeS64_loop_unfold) (simp only: nf if_False b_def)
    then have enc: "EncodeS64_loop num [] =
        (b OR 0x80) # EncodeS64_loop (signed_drop_bit (7 * (k + 1)) v) []"
      by (simp only: num' sh')
    have flag: "bit (b OR 0x80) 7"
      by (rule flag_set)
    have pl: "take_bit 7 (b OR 0x80) = b"
      unfolding b_def by (rule payload_flagged)
    have n6: "bit num 6 \<longleftrightarrow> bit v (sh + 6)"
      unfolding num_def using six by (rule sign_bit_of_group)
    have p6: "bit (b OR 0x80) 6 \<longleftrightarrow> bit v (sh + 6)"
      using b6 n6 by (simp add: bit_simps bit_0x80)
    have "?dec (EncodeS64_loop num [] @ rest) (take_bit sh v) sh prev buf =
            ?dec ((b OR 0x80) # (EncodeS64_loop (signed_drop_bit (7 * (k + 1)) v) [] @ rest))
              (take_bit sh v) sh prev buf"
      by (simp only: enc append_Cons)
    also have "\<dots> = ?dec (EncodeS64_loop (signed_drop_bit (7 * (k + 1)) v) [] @ rest)
            (take_bit sh v OR push_bit sh (ucast (take_bit 7 (b OR 0x80)))) (sh + 7)
            (b OR 0x80) (b OR 0x80)"
      using flag le by (rule DecodeS64_loop_more)
    also have "\<dots> = ?dec (EncodeS64_loop (signed_drop_bit (7 * (k + 1)) v) [] @ rest)
            (take_bit (7 * (k + 1)) v) (7 * (k + 1)) (b OR 0x80) (b OR 0x80)"
      by (simp only: pl acc sh')
    also have "\<dots> = (Inr v, rest)"
    proof (rule less.hyps)
      show "9 - (k + 1) < 9 - k" using k by arith
      show "k + 1 \<le> 9" by (rule k)
      have idx: "7 * (k + 1) - 1 = sh + 6"
        by (simp add: sh_def)
      have nd: "\<not> ((signed_drop_bit (sh + 7) v = 0 \<and> \<not> bit v (sh + 6)) \<or>
          (signed_drop_bit (sh + 7) v = - 1 \<and> bit v (sh + 6)))"
        using nf unfolding num' n6 .
      with p6 have "0 < k + 1 \<longrightarrow> (bit (b OR 0x80) 6 \<longleftrightarrow> bit v (sh + 6)) \<and>
           \<not> ((signed_drop_bit (sh + 7) v = 0 \<and> \<not> bit v (sh + 6)) \<or>
              (signed_drop_bit (sh + 7) v = - 1 \<and> bit v (sh + 6)))"
        by blast
      then show "0 < k + 1 \<longrightarrow> (bit (b OR 0x80) 6 \<longleftrightarrow> bit v (7 * (k + 1) - 1)) \<and>
           \<not> ((signed_drop_bit (7 * (k + 1)) v = 0 \<and> \<not> bit v (7 * (k + 1) - 1)) \<or>
              (signed_drop_bit (7 * (k + 1)) v = - 1 \<and> bit v (7 * (k + 1) - 1)))"
        unfolding idx unfolding sh' [symmetric] by blast
    qed
    finally show ?thesis
      by (simp only: num_def sh_def)
  qed
qed

text \<open>
  Claim C2.  For every \<open>int64\<close> value \<open>v\<close>, \<open>DecodeS64\<close> reading from a source that
  supplies exactly the bytes \<open>EncodeS64 v\<close> succeeds and returns \<open>v\<close>.
\<close>

theorem DecodeS64_EncodeS64: "DecodeS64 bytes_reader (EncodeS64 v) = (Inr v, [])"
  using DecodeS64_loop_EncodeS64_loop [of 0 0 v "[]" 0]
  by (simp add: DecodeS64_def EncodeS64_def)

section \<open>Only minimal encodings are accepted\<close>

text \<open>
  The converse direction: whatever byte sequence a decoder accepts is the one the
  encoder produces for the decoded value.  The induction runs over the bytes read.
\<close>

lemma bit_below: "take_bit n w = w \<Longrightarrow> bit w m \<Longrightarrow> m < n"
  by (metis bit_take_bit_iff)

lemma low_part:
  fixes res :: "'a::len word"
  assumes "take_bit shift res = res"
  shows "take_bit shift (res OR push_bit shift w) = res"
  using assms by (simp add: take_bit_push_bit)

lemma low_part_grows:
  fixes res :: "'a::len word"
  assumes "take_bit shift res = res"
  shows "take_bit (shift + 7) (res OR push_bit shift (ucast (take_bit 7 (b :: byte)))) =
           res OR push_bit shift (ucast (take_bit 7 b))"
  by (rule bit_word_eqI) (auto simp add: bit_simps dest: bit_below [OF assms])

lemma high_part:
  fixes res :: "'a::len word"
  assumes "take_bit shift res = res" and "take_bit n (b :: byte) = b" and "shift + n \<le> LENGTH('a)"
  shows "drop_bit shift (res OR push_bit shift (ucast b)) = ucast b"
proof (rule bit_word_eqI)
  fix m assume "m < LENGTH('a)"
  have "bit b m \<Longrightarrow> shift + m < LENGTH('a)"
    using bit_below [OF assms(2), of m] assms(3) by simp
  then show "bit (drop_bit shift (res OR push_bit shift (ucast b))) m \<longleftrightarrow> bit (ucast b :: 'a word) m"
    using bit_below [OF assms(1), of "shift + m"]
    by (auto simp add: bit_simps dest: bit_imp_le_length)
qed

lemma flag_clear_payload: "\<not> bit (b :: byte) 7 \<Longrightarrow> take_bit 7 b = b"
  by (rule bit_word_eqI) (auto simp add: bit_simps less_Suc_eq numeral_eq_Suc)

lemma flag_set_payload: "bit (b :: byte) 7 \<Longrightarrow> take_bit 7 b OR 0x80 = b"
  by (rule bit_word_eqI) (auto simp add: bit_simps bit_0x80 less_Suc_eq numeral_eq_Suc)

lemma ucast_byte_eq_0:
  "8 \<le> LENGTH('a) \<Longrightarrow> (ucast (b :: byte) :: 'a::len word) = 0 \<longleftrightarrow> b = 0"
proof
  assume l: "8 \<le> LENGTH('a)" and "(ucast b :: 'a word) = 0"
  then have "(ucast (ucast b :: 'a word) :: byte) = ucast (0 :: 'a word)"
    by simp
  moreover have "(ucast (ucast b :: 'a word) :: byte) = b"
    using l by (intro bit_word_eqI) (auto simp add: bit_simps)
  ultimately show "b = 0"
    by simp
qed simp

lemma byte_back:
  "8 \<le> LENGTH('a) \<Longrightarrow> \<not> bit (b :: byte) 7 \<Longrightarrow> ucast (take_bit 7 (ucast b :: 'a::len word)) = b"
  by (rule bit_word_eqI) (auto simp add: bit_simps less_Suc_eq numeral_eq_Suc)

lemma byte_high_zero:
  assumes "\<not> bit (b :: byte) 7"
  shows "drop_bit 7 (ucast b :: 'a::len word) = 0"
proof (rule bit_word_eqI)
  fix n assume "n < LENGTH('a)"
  have "bit b (7 + n) \<Longrightarrow> n = 0"
    using bit_imp_le_length [of b "7 + n"] by simp
  with assms have "\<not> bit b (7 + n)"
    by auto
  then show "bit (drop_bit 7 (ucast b :: 'a word)) n \<longleftrightarrow> bit (0 :: 'a word) n"
    by (simp add: bit_simps)
qed

lemma EncodeU32_loop_single:
  "\<not> bit (b :: byte) 7 \<Longrightarrow> EncodeU32_loop (ucast b) [] = [b]"
  by (subst EncodeU32_loop_unfold) (simp add: byte_high_zero byte_back)

lemma EncodeU64_loop_single:
  "\<not> bit (b :: byte) 7 \<Longrightarrow> EncodeU64_loop (ucast b) [] = [b]"
  by (subst EncodeU64_loop_unfold) (simp add: byte_high_zero byte_back)


lemma DecodeU32_loop_minimal:
  assumes "DecodeU32_loop (bytes_reader :: (byte list, 'e) reader) bs res (7 * k) buf = (Inr v, rest)"
    and "k \<le> 4" and "take_bit (7 * k) res = res"
  shows "take_bit (7 * k) v = res \<and> (0 < k \<longrightarrow> drop_bit (7 * k) v \<noteq> 0) \<and>
         bs = EncodeU32_loop (drop_bit (7 * k) v) [] @ rest"
  using assms
proof (induction bs arbitrary: res k buf)
  case Nil
  then show ?case
    by (simp add: DecodeU32_loop_Nil)
next
  case (Cons b bs)
  define sh where "sh = 7 * k"
  define res' :: uint32 where "res' = res OR push_bit sh (ucast (take_bit 7 b))"
  note dec = Cons.prems(1) [folded sh_def]
  have low: "take_bit sh res = res"
    using Cons.prems(3) by (simp only: sh_def)
  have lo: "take_bit sh res' = res"
    unfolding res'_def using low by (rule low_part)
  show ?case
  proof (cases "bit b 7")
    case False
    from dec False have ovf: "\<not> (32 < sh + 7 \<and> 15 < b)" and nm: "\<not> (0 < sh \<and> b = 0)"
      and v: "v = res'" and rest: "rest = bs"
      by (auto simp add: DecodeU32_loop_Cons res'_def split: if_splits)
    have pl: "take_bit 7 b = b"
      using False by (rule flag_clear_payload)
    have "\<exists>n. take_bit n b = b \<and> sh + n \<le> 32"
    proof (cases "32 < sh + 7")
      case True
      with ovf Cons.prems(2) have "b \<le> 15" and "sh = 28"
        by (simp_all add: sh_def not_less)
      then have "take_bit 4 b = b \<and> sh + 4 \<le> 32"
        by (simp add: byte_le_15)
      then show ?thesis ..
    next
      case False
      with pl have "take_bit 7 b = b \<and> sh + 7 \<le> 32"
        by simp
      then show ?thesis ..
    qed
    then obtain n where "take_bit n b = b" and "sh + n \<le> LENGTH(32)"
      by auto
    with low have "drop_bit sh (res OR push_bit sh (ucast b)) = (ucast b :: uint32)"
      by (rule high_part)
    then have hi: "drop_bit sh v = ucast b"
      by (simp only: v res'_def pl)
    have nz: "0 < k \<longrightarrow> (ucast b :: uint32) \<noteq> 0"
      using nm by (auto simp add: sh_def ucast_byte_eq_0)
    have "EncodeU32_loop (ucast b) [] = [b]"
      using False by (rule EncodeU32_loop_single)
    with hi nz lo show ?thesis
      by (simp add: v rest sh_def [symmetric])
  next
    case True
    from dec True have le: "sh + 7 \<le> 32"
      and rec: "DecodeU32_loop (bytes_reader :: (byte list, 'e) reader) bs res' (sh + 7) b = (Inr v, rest)"
      by (auto simp add: DecodeU32_loop_Cons res'_def split: if_splits)
    have sh': "sh + 7 = 7 * (k + 1)"
      by (simp add: sh_def)
    from le have k: "k + 1 \<le> 4"
      by (simp add: sh_def)
    have grow: "take_bit (7 * (k + 1)) res' = res'"
      unfolding res'_def sh' [symmetric] using low by (rule low_part_grows)
    from Cons.IH [OF rec [unfolded sh'] k grow]
    have IH: "take_bit (sh + 7) v = res'" "drop_bit (sh + 7) v \<noteq> 0"
      "bs = EncodeU32_loop (drop_bit (sh + 7) v) [] @ rest"
      by (simp_all add: sh')
    have "take_bit sh (take_bit (sh + 7) v) = take_bit sh v"
      by simp
    with IH(1) lo have a: "take_bit sh v = res"
      by simp
    have d: "drop_bit 7 (drop_bit sh v) = drop_bit (sh + 7) v"
      by (simp add: add.commute)
    have b': "drop_bit sh v \<noteq> 0"
    proof
      assume "drop_bit sh v = 0"
      then have "drop_bit 7 (drop_bit sh v) = 0"
        by simp
      with IH(2) show False
        by (simp only: d)
    qed
    have "take_bit 7 (drop_bit sh v) = drop_bit sh (take_bit (sh + 7) v)"
      by (simp add: drop_bit_take_bit add.commute)
    also have "\<dots> = drop_bit sh (res OR push_bit sh (ucast (take_bit 7 b)))"
      by (simp only: IH(1) res'_def)
    also have "\<dots> = ucast (take_bit 7 b)"
      using le by (intro high_part [where n = 7] low) simp_all
    finally have "(ucast (take_bit 7 (drop_bit sh v)) :: byte) = ucast (ucast (take_bit 7 b) :: uint32)"
      by simp
    also have "\<dots> = take_bit 7 b"
      by (rule bit_word_eqI) (auto simp add: bit_simps)
    finally have bb: "(ucast (take_bit 7 (drop_bit sh v)) :: byte) OR 0x80 = b"
      using True by (simp only: flag_set_payload)
    have "EncodeU32_loop (drop_bit sh v) [] = b # EncodeU32_loop (drop_bit (sh + 7) v) []"
      by (subst EncodeU32_loop_unfold) (simp only: d IH(2) bb if_False)
    with IH(3) a b' show ?thesis
      by (simp add: sh_def [symmetric])
  qed
qed

lemma DecodeU64_loop_minimal:
  assumes "DecodeU64_loop (bytes_reader :: (byte list, 'e) reader) bs res (7 * k) buf = (Inr v, rest)"
    and "k \<le> 9" and "take_bit (7 * k) res = res"
  shows "take_bit (7 * k) v = res \<and> (0 < k \<longrightarrow> drop_bit (7 * k) v \<noteq> 0) \<and>
         bs = EncodeU64_loop (drop_bit (7 * k) v) [] @ rest"
  using assms
proof (induction bs arbitrary: res k buf)
  case Nil
  then show ?case
    by (simp add: DecodeU64_loop_Nil)
next
  case (Cons b bs)
  define sh where "sh = 7 * k"
  define res' :: uint64 where "res' = res OR push_bit sh (ucast (take_bit 7 b))"
  note dec = Cons.prems(1) [folded sh_def]
  have low: "take_bit sh res = res"
    using Cons.prems(3) by (simp only: sh_def)
  have lo: "take_bit sh res' = res"
    unfolding res'_def using low by (rule low_part)
  show ?case
  proof (cases "bit b 7")
    case False
    from dec False have ovf: "\<not> (64 < sh + 7 \<and> 1 < b)" and nm: "\<not> (0 < sh \<and> b = 0)"
      and v: "v = res'" and rest: "rest = bs"
      by (auto simp add: DecodeU64_loop_Cons res'_def split: if_splits)
    have pl: "take_bit 7 b = b"
      using False by (rule flag_clear_payload)
    have "\<exists>n. take_bit n b = b \<and> sh + n \<le> 64"
    proof (cases "64 < sh + 7")
      case True
      with ovf Cons.prems(2) have "b \<le> 1" and "sh = 63"
        by (simp_all add: sh_def not_less)
      then have "take_bit 1 b = b \<and> sh + 1 \<le> 64"
        by (simp add: byte_le_1)
      then show ?thesis ..
    next
      case False
      with pl have "take_bit 7 b = b \<and> sh + 7 \<le> 64"
        by simp
      then show ?thesis ..
    qed
    then obtain n where "take_bit n b = b" and "sh + n \<le> LENGTH(64)"
      by auto
    with low have "drop_bit sh (res OR push_bit sh (ucast b)) = (ucast b :: uint64)"
      by (rule high_part)
    then have hi: "drop_bit sh v = ucast b"
      by (simp only: v res'_def pl)
    have nz: "0 < k \<longrightarrow> (ucast b :: uint64) \<noteq> 0"
      using nm by (auto simp add: sh_def ucast_byte_eq_0)
    have "EncodeU64_loop (ucast b) [] = [b]"
      using False by (rule EncodeU64_loop_single)
    with hi nz lo show ?thesis
      by (simp add: v rest sh_def [symmetric])
  next
    case True
    from dec True have le: "sh + 7 \<le> 64"
      and rec: "DecodeU64_loop (bytes_reader :: (byte list, 'e) reader) bs res' (sh + 7) b = (Inr v, rest)"
      by (auto simp add: DecodeU64_loop_Cons res'_def split: if_splits)
    have sh': "sh + 7 = 7 * (k + 1)"
      by (simp add: sh_def)
    from le have k: "k + 1 \<le> 9"
      by (simp add: sh_def)
    have grow: "take_bit (7 * (k + 1)) res' = res'"
      unfolding res'_def sh' [symmetric] using low by (rule low_part_grows)
    from Cons.IH [OF rec [unfolded sh'] k grow]
    have IH: "take_bit (sh + 7) v = res'" "drop_bit (sh + 7) v \<noteq> 0"
      "bs = EncodeU64_loop (drop_bit (sh + 7) v) [] @ rest"
      by (simp_all add: sh')
    have "take_bit sh (take_bit (sh + 7) v) = take_bit sh v"
      by simp
    with IH(1) lo have a: "take_bit sh v = res"
      by simp
    have d: "drop_bit 7 (drop_bit sh v) = drop_bit (sh + 7) v"
      by (simp add: add.commute)
    have b': "drop_bit sh v \<noteq> 0"
    proof
      assume "drop_bit sh v = 0"
      then have "drop_bit 7 (drop_bit sh v) = 0"
        by simp
      with IH(2) show False
        by (simp only: d)
    qed
    have "take_bit 7 (drop_bit sh v) = drop_bit sh (take_bit (sh + 7) v)"
      by (simp add: drop_bit_take_bit add.commute)
    also have "\<dots> = drop_bit sh (res OR push_bit sh (ucast (take_bit 7 b)))"
      by (simp only: IH(1) res'_def)
    also have "\<dots> = ucast (take_bit 7 b)"
      using le by (intro high_part [where n = 7] low) simp_all
    finally have "(ucast (take_bit 7 (drop_bit sh v)) :: byte) = ucast (ucast (take_bit 7 b) :: uint64)"
      by simp
    also have "\<dots> = take_bit 7 b"
      by (rule bit_word_eqI) (auto simp add: bit_simps)
    finally have bb: "(ucast (take_bit 7 (drop_bit sh v)) :: byte) OR 0x80 = b"
      using True by (simp only: flag_set_payload)
    have "EncodeU64_loop (drop_bit sh v) [] = b # EncodeU64_loop (drop_bit (sh + 7) v) []"
      by (subst EncodeU64_loop_unfold) (simp only: d IH(2) bb if_False)
    with IH(3) a b' show ?thesis
      by (simp add: sh_def [symmetric])
  qed
qed



lemma bit_sign_extended:
  assumes "\<not> bit (b :: byte) 7"
  shows "bit (if bit b 6 then ucast b OR push_bit 7 (- 1) else ucast b :: int64) m \<longleftrightarrow> m < 64 \<and> bit b (min m 6)"
proof -
  have b7: "bit b m \<Longrightarrow> m < 7" for m
    using bit_imp_le_length [of b m] assms by (cases "m = 7") auto
  show ?thesis
    by (auto simp add: bit_simps min_def not_le dest: b7)
qed

lemma DecodeS64_value_short:
  assumes "take_bit sh res = res" and "\<not> bit (b :: byte) 7" and "sh + 7 < 64"
  defines "v \<equiv> (if bit b 6 then (res OR push_bit sh (ucast b)) OR push_bit (sh + 7) (- 1)
                 else res OR push_bit sh (ucast b) :: int64)"
  shows "signed_drop_bit sh v = (if bit b 6 then ucast b OR push_bit 7 (- 1) else ucast b :: int64)" and "take_bit sh v = res"
proof -
  have b7: "bit b m \<Longrightarrow> m < 7" for m
    using bit_imp_le_length [of b m] assms(2) by (cases "m = 7") auto
  have r: "bit res m \<Longrightarrow> m < sh" for m
    using assms(1) by (rule bit_below)
  show "signed_drop_bit sh v = (if bit b 6 then ucast b OR push_bit 7 (- 1) else ucast b :: int64)"
  proof (rule bit_word_eqI)
    fix m assume "m < LENGTH(64)"
    then show "bit (signed_drop_bit sh v) m \<longleftrightarrow> bit (if bit b 6 then ucast b OR push_bit 7 (- 1) else ucast b :: int64) m"
      using assms(3) unfolding bit_sign_extended [OF assms(2)] v_def
      by (auto simp add: bit_simps min_def not_le dest: b7 r)
  qed
  show "take_bit sh v = res"
    unfolding v_def
    by (rule bit_word_eqI) (auto simp add: bit_simps dest: r)
qed


lemma bit_0x7F: "bit (0x7F :: byte) m \<longleftrightarrow> m < 7"
proof -
  have e: "(0x7F :: byte) = mask 7"
    by (simp add: mask_eq_exp_minus_1)
  show ?thesis
    by (subst e) (auto simp add: bit_simps)
qed

lemma DecodeS64_value_last:
  assumes "take_bit 63 res = res" and "b = 0 \<or> b = (0x7F :: byte)"
  defines "v \<equiv> (res OR push_bit 63 (ucast b) :: int64)"
  shows "signed_drop_bit 63 v = (if bit b 6 then ucast b OR push_bit 7 (- 1) else ucast b :: int64)" and "take_bit 63 v = res"
proof -
  have r: "bit res m \<Longrightarrow> m < 63" for m
    using assms(1) by (rule bit_below)
  have b: "bit b m \<longleftrightarrow> b = 0x7F \<and> m < 7" for m
  proof (cases "b = 0")
    case True
    then show ?thesis by simp
  next
    case False
    with assms(2) have "b = 0x7F" by simp
    then show ?thesis by (simp only: bit_0x7F simp_thms)
  qed
  have nf: "\<not> bit b 7"
    using b [of 7] by simp
  show "signed_drop_bit 63 v = (if bit b 6 then ucast b OR push_bit 7 (- 1) else ucast b :: int64)"
  proof (rule bit_word_eqI)
    fix m assume "m < LENGTH(64)"
    then show "bit (signed_drop_bit 63 v) m \<longleftrightarrow> bit (if bit b 6 then ucast b OR push_bit 7 (- 1) else ucast b :: int64) m"
      unfolding bit_sign_extended [OF nf] v_def
      by (auto simp add: bit_simps b min_def not_le dest: r)
  qed
  show "take_bit 63 v = res"
    unfolding v_def
    by (rule bit_word_eqI) (auto simp add: bit_simps dest: r)
qed

lemma sign_extended_payload:
  assumes "\<not> bit (b :: byte) 7"
  shows "ucast (take_bit 7 (if bit b 6 then ucast b OR push_bit 7 (- 1) else ucast b :: int64)) = b"
proof (rule bit_word_eqI)
  fix m assume "m < LENGTH(8)"
  have "bit b m \<Longrightarrow> m < 7"
    using bit_imp_le_length [of b m] assms by (cases "m = 7") auto
  then show "bit (ucast (take_bit 7 (if bit b 6 then ucast b OR push_bit 7 (- 1) else ucast b :: int64)) :: byte) m \<longleftrightarrow> bit b m"
    unfolding bit_ucast_iff bit_take_bit_iff bit_sign_extended [OF assms]
    by (auto simp add: min_def)
qed

lemma sign_extended_rest:
  assumes "\<not> bit (b :: byte) 7"
  shows "signed_drop_bit 7 (if bit b 6 then ucast b OR push_bit 7 (- 1) else ucast b :: int64) = (if bit b 6 then - 1 else 0)"
proof (rule bit_word_eqI)
  fix m assume "m < LENGTH(64)"
  then show "bit (signed_drop_bit 7 (if bit b 6 then ucast b OR push_bit 7 (- 1) else ucast b :: int64)) m \<longleftrightarrow> bit (if bit b 6 then - 1 else 0 :: int64) m"
    unfolding bit_signed_drop_bit_iff bit_sign_extended [OF assms]
    by (auto simp add: min_def)
qed

lemma EncodeS64_loop_single:
  assumes "\<not> bit (b :: byte) 7"
  shows "EncodeS64_loop (if bit b 6 then ucast b OR push_bit 7 (- 1) else ucast b :: int64) [] = [b]"
proof -
  have "bit (if bit b 6 then ucast b OR push_bit 7 (- 1) else ucast b :: int64) 6 \<longleftrightarrow> bit b 6"
    unfolding bit_sign_extended [OF assms] by simp
  then show ?thesis
    by (subst EncodeS64_loop_unfold)
      (simp only: sign_extended_rest [OF assms] sign_extended_payload [OF assms], simp)
qed

lemma sign_extended_zero:
  assumes "\<not> bit (b :: byte) 7" and "(if bit b 6 then ucast b OR push_bit 7 (- 1) else ucast b :: int64) = 0"
  shows "b = 0"
  using sign_extended_payload [OF assms(1)] by (simp only: assms(2)) simp

lemma sign_extended_ones:
  assumes "\<not> bit (b :: byte) 7" and "(if bit b 6 then ucast b OR push_bit 7 (- 1) else ucast b :: int64) = - 1"
  shows "b = 0x7F"
  using sign_extended_payload [OF assms(1)]
  by (simp only: assms(2)) (simp add: ucast_mask_eq mask_eq_exp_minus_1)

lemma DecodeS64_group:
  fixes v :: int64
  assumes "take_bit sh res = res" and "sh + 7 \<le> 64"
    and "take_bit (sh + 7) v = res OR push_bit sh (ucast (take_bit 7 (b :: byte)))"
  shows "ucast (take_bit 7 (signed_drop_bit sh v)) = take_bit 7 b"
    and "bit (signed_drop_bit sh v) 6 \<longleftrightarrow> bit b 6"
    and "take_bit sh v = res"
proof -
  have r: "bit res m \<Longrightarrow> m < sh" for m
    using assms(1) by (rule bit_below)
  have v: "bit v (sh + m) \<longleftrightarrow> bit b m" if "m < 7" for m
  proof -
    have "bit v (sh + m) \<longleftrightarrow> bit (take_bit (sh + 7) v) (sh + m)"
      using that by (simp add: bit_simps)
    also have "\<dots> \<longleftrightarrow> bit b m"
      unfolding assms(3) using that assms(2) by (auto simp add: bit_simps dest: r)
    finally show ?thesis .
  qed
  show "ucast (take_bit 7 (signed_drop_bit sh v)) = take_bit 7 b"
  proof (rule bit_word_eqI)
    fix m assume "m < LENGTH(8)"
    then show "bit (ucast (take_bit 7 (signed_drop_bit sh v)) :: byte) m \<longleftrightarrow> bit (take_bit 7 b) m"
      using assms(2) v [of m] by (auto simp add: bit_simps add.commute)
  qed
  show "bit (signed_drop_bit sh v) 6 \<longleftrightarrow> bit b 6"
    using assms(2) v [of 6] by (auto simp add: bit_simps add.commute)
  have "take_bit sh v = take_bit sh (take_bit (sh + 7) v)"
    by simp
  also have "\<dots> = take_bit sh (res OR push_bit sh (ucast (take_bit 7 b)))"
    by (simp only: assms(3))
  also have "\<dots> = res"
    using assms(1) by (rule low_part)
  finally show "take_bit sh v = res" .
qed


lemma DecodeS64_loop_Nil:
  "DecodeS64_loop bytes_reader [] res shift prev buf = (Inl ErrNonMinimal, [])"
  using DecodeS64_loop_eof [of bytes_reader "[]" None "[]"] by simp

lemma DecodeS64_loop_Cons:
  "DecodeS64_loop bytes_reader (b # bs) res shift prev buf =
    (if \<not> bit b 7 then
       (if 64 < shift + 7 \<and> b \<noteq> 0 \<and> b \<noteq> 0x7F then (Inl ErrOverflow, bs)
        else if 0 < shift \<and> ((b = 0 \<and> \<not> bit prev 6) \<or> (b = 0x7F \<and> bit prev 6))
          then (Inl ErrNonMinimal, bs)
        else if shift + 7 < 64 \<and> bit b 6
          then (Inr ((res OR push_bit shift (ucast (take_bit 7 b))) OR push_bit (shift + 7) (- 1)), bs)
        else (Inr (res OR push_bit shift (ucast (take_bit 7 b))), bs))
     else if 64 < shift + 7 then (Inl ErrOverflow, bs)
     else DecodeS64_loop bytes_reader bs (res OR push_bit shift (ucast (take_bit 7 b))) (shift + 7) b b)"
  using DecodeS64_loop_byte [of bytes_reader "b # bs" b bs res shift prev buf] by simp

lemma DecodeS64_loop_minimal:
  assumes "DecodeS64_loop (bytes_reader :: (byte list, 'e) reader) bs res (7 * k) prev buf = (Inr v, rest)"
    and "k \<le> 9" and "take_bit (7 * k) res = res"
  shows "take_bit (7 * k) v = res \<and>
         (0 < k \<longrightarrow> (bit prev 6 \<longrightarrow> signed_drop_bit (7 * k) v \<noteq> - 1) \<and>
                  (\<not> bit prev 6 \<longrightarrow> signed_drop_bit (7 * k) v \<noteq> 0)) \<and>
         bs = EncodeS64_loop (signed_drop_bit (7 * k) v) [] @ rest"
  using assms
proof (induction bs arbitrary: res k prev buf)
  case Nil
  then show ?case
    by (simp add: DecodeS64_loop_Nil)
next
  case (Cons b bs)
  define sh where "sh = 7 * k"
  define res' :: int64 where "res' = res OR push_bit sh (ucast (take_bit 7 b))"
  define num where "num = signed_drop_bit sh v"
  note dec = Cons.prems(1) [folded sh_def]
  have low: "take_bit sh res = res"
    using Cons.prems(3) by (simp only: sh_def)
  show ?case
  proof (cases "bit b 7")
    case False
    from dec False have ovf: "\<not> (64 < sh + 7 \<and> b \<noteq> 0 \<and> b \<noteq> 0x7F)"
      and nm: "\<not> (0 < sh \<and> ((b = 0 \<and> \<not> bit prev 6) \<or> (b = 0x7F \<and> bit prev 6)))"
      and v: "v = (if sh + 7 < 64 \<and> bit b 6 then res' OR push_bit (sh + 7) (- 1) else res')"
      and rest: "rest = bs"
      by (auto simp add: DecodeS64_loop_Cons res'_def split: if_splits)
    have pl: "take_bit 7 b = b"
      using False by (rule flag_clear_payload)
    have val: "num = (if bit b 6 then ucast b OR push_bit 7 (- 1) else ucast b :: int64) \<and> take_bit sh v = res"
    proof (cases "sh + 7 < 64")
      case True
      then have "v = (if bit b 6 then (res OR push_bit sh (ucast b)) OR push_bit (sh + 7) (- 1)
                 else res OR push_bit sh (ucast b))"
        by (simp add: v res'_def pl)
      then show ?thesis
        using DecodeS64_value_short [OF low False True] by (simp only: num_def)
    next
      case False
      with Cons.prems(2) have sh: "sh = 63"
        by (simp add: sh_def)
      with ovf have b: "b = 0 \<or> b = 0x7F"
        by auto
      from sh have "v = res OR push_bit 63 (ucast b)"
        by (simp add: v res'_def pl)
      then show ?thesis
        using DecodeS64_value_last [OF low [unfolded sh] b] by (simp only: num_def sh)
    qed
    have enc: "EncodeS64_loop num [] = [b]"
      using val EncodeS64_loop_single [OF False] by simp
    have "bit prev 6 \<longrightarrow> num \<noteq> - 1" and "\<not> bit prev 6 \<longrightarrow> num \<noteq> 0" if "0 < k"
    proof -
      from that have "0 < sh"
        by (simp add: sh_def)
      with nm have c: "\<not> (b = 0 \<and> \<not> bit prev 6)" "\<not> (b = 0x7F \<and> bit prev 6)"
        by auto
      show "bit prev 6 \<longrightarrow> num \<noteq> - 1"
        using c(2) val sign_extended_ones [OF False] by auto
      show "\<not> bit prev 6 \<longrightarrow> num \<noteq> 0"
        using c(1) val sign_extended_zero [OF False] by auto
    qed
    with val enc show ?thesis
      by (simp add: rest sh_def [symmetric] num_def [symmetric])
  next
    case True
    from dec True have le: "sh + 7 \<le> 64"
      and rec: "DecodeS64_loop (bytes_reader :: (byte list, 'e) reader) bs res' (sh + 7) b b = (Inr v, rest)"
      by (auto simp add: DecodeS64_loop_Cons res'_def split: if_splits)
    have sh': "sh + 7 = 7 * (k + 1)"
      by (simp add: sh_def)
    from le have k: "k + 1 \<le> 9"
      by (simp add: sh_def)
    have grow: "take_bit (7 * (k + 1)) res' = res'"
      unfolding res'_def sh' [symmetric] using low by (rule low_part_grows)
    define num' where "num' = signed_drop_bit (sh + 7) v"
    from Cons.IH [OF rec [unfolded sh'] k grow]
    have IH: "take_bit (sh + 7) v = res'" "bit b 6 \<longrightarrow> num' \<noteq> - 1" "\<not> bit b 6 \<longrightarrow> num' \<noteq> 0"
      "bs = EncodeS64_loop num' [] @ rest"
      by (simp_all add: sh' num'_def)
    note g = DecodeS64_group [OF low le IH(1) [unfolded res'_def], folded num_def]
    have d: "signed_drop_bit 7 num = num'"
      by (simp add: num_def num'_def add.commute)
    have nf: "\<not> ((num' = 0 \<and> \<not> bit num 6) \<or> (num' = - 1 \<and> bit num 6))"
      using IH(2,3) by (auto simp add: g(2))
    have bb: "(ucast (take_bit 7 num) :: byte) OR 0x80 = b"
      using True by (simp only: g(1) flag_set_payload)
    have enc: "EncodeS64_loop num [] = b # EncodeS64_loop num' []"
      by (subst EncodeS64_loop_unfold) (simp only: d nf if_False bb)
    have "num \<noteq> - 1"
    proof
      assume "num = - 1"
      then have "signed_drop_bit 7 num = - 1" and "bit num 6"
        by simp_all
      with nf d show False
        by simp
    qed
    moreover have "num \<noteq> 0"
    proof
      assume "num = 0"
      then have "signed_drop_bit 7 num = 0" and "\<not> bit num 6"
        by simp_all
      with nf d show False
        by simp
    qed
    ultimately show ?thesis
      using g(3) enc IH(4) by (simp add: sh_def [symmetric] num_def [symmetric])
  qed
qed

text \<open>
  Claim C1.  For every byte sequence \<open>bs\<close> and each of \<open>DecodeU32\<close>, \<open>DecodeU64\<close> and
  \<open>DecodeS64\<close>: if decoding \<open>bs\<close> succeeds with value \<open>v\<close>, leaving the bytes \<open>rest\<close>
  unread, then the bytes consumed are exactly the encoder's output for \<open>v\<close>, that is
  \<open>bs = Encode v @ rest\<close>.  So a sequence that takes more bytes than the encoding of its
  value is never accepted.
\<close>

theorem Decode_minimal:
  "(DecodeU32 (bytes_reader :: (byte list, 'e) reader) bs = (Inr u, rest) \<longrightarrow>
      bs = EncodeU32 u @ rest) \<and>
   (DecodeU64 (bytes_reader :: (byte list, 'e) reader) bs = (Inr v, rest) \<longrightarrow>
      bs = EncodeU64 v @ rest) \<and>
   (DecodeS64 (bytes_reader :: (byte list, 'e) reader) bs = (Inr w, rest) \<longrightarrow>
      bs = EncodeS64 w @ rest)"
proof (intro conjI impI)
  assume "DecodeU32 (bytes_reader :: (byte list, 'e) reader) bs = (Inr u, rest)"
  then show "bs = EncodeU32 u @ rest"
    using DecodeU32_loop_minimal [where ?'e = 'e, of bs 0 0 0 u rest]
    by (simp add: DecodeU32_def EncodeU32_def)
next
  assume "DecodeU64 (bytes_reader :: (byte list, 'e) reader) bs = (Inr v, rest)"
  then show "bs = EncodeU64 v @ rest"
    using DecodeU64_loop_minimal [where ?'e = 'e, of bs 0 0 0 v rest]
    by (simp add: DecodeU64_def EncodeU64_def)
next
  assume "DecodeS64 (bytes_reader :: (byte list, 'e) reader) bs = (Inr w, rest)"
  then show "bs = EncodeS64 w @ rest"
    using DecodeS64_loop_minimal [where ?'e = 'e, of bs 0 0 0 0 w rest]
    by (simp add: DecodeS64_def EncodeS64_def)
qed

theorem Decode_minimal_witness:
  "DecodeU32 (bytes_reader :: (byte list, unit) reader) [0xAC, 0x02, 0x55] = (Inr 300, [0x55]) \<and>
   [0xAC, 0x02, 0x55] = EncodeU32 300 @ [0x55] \<and>
   DecodeU64 (bytes_reader :: (byte list, unit) reader) [0xAC, 0x02, 0x55] = (Inr 300, [0x55]) \<and>
   [0xAC, 0x02, 0x55] = EncodeU64 300 @ [0x55] \<and>
   DecodeS64 (bytes_reader :: (byte list, unit) reader) [0x80, 0x7F, 0x55] = (Inr (- 128), [0x55]) \<and>
   [0x80, 0x7F, 0x55] = EncodeS64 (- 128) @ [0x55]"
proof -
  have u: "DecodeU32 (bytes_reader :: (byte list, unit) reader) [0xAC, 0x02, 0x55] = (Inr 300, [0x55])"
    by (simp add: DecodeU32_def DecodeU32_loop_Cons)
  have v: "DecodeU64 (bytes_reader :: (byte list, unit) reader) [0xAC, 0x02, 0x55] = (Inr 300, [0x55])"
    by (simp add: DecodeU64_def DecodeU64_loop_Cons)
  have w: "DecodeS64 (bytes_reader :: (byte list, unit) reader) [0x80, 0x7F, 0x55] = (Inr (- 128), [0x55])"
    by (simp add: DecodeS64_def DecodeS64_loop_Cons mask_eq_exp_minus_1)
  from u v Decode_minimal [where ?'e = unit, of "[0xAC, 0x02, 0x55]" 300 "[0x55]" 300 300]
  have "[0xAC, 0x02, 0x55] = EncodeU32 300 @ [0x55]"
    and "[0xAC, 0x02, 0x55] = EncodeU64 300 @ [0x55]"
    by blast+
  moreover from w Decode_minimal [where ?'e = unit, of "[0x80, 0x7F, 0x55]" 0 "[0x55]" 0 "- 128"]
  have "[0x80, 0x7F, 0x55] = EncodeS64 (- 128) @ [0x55]"
    by blast
  ultimately show ?thesis
    using u v w by blast
qed

end
